theory Spec2Isabelle
  imports Main "HOL-Library.Word" "HOL-Library.AList" "HOL-Library.Sublist"
begin

unbundle bit_operations_syntax

chapter \<open>The embedding\<close>

text \<open>
  A shallow embedding of the security core of the Samba administration console: the
  sliding-window rate limiter, the CSRF double-submit check, the path sandbox, the
  allowlisted command builder, the session vault, the command channel of the SSH
  executor and the configuration-apply handler. Every definition follows the TypeScript
  function of the same name. Module-level mutable maps become an explicit store that is
  passed in and returned; \<open>Date.now()\<close> and the outputs of the random generator
  become arguments; a \<open>throw\<close> becomes the \<open>Inl\<close> branch of a sum.
\<close>

section \<open>Rate limiter (\<open>src/lib/rate-limiter.ts\<close>)\<close>

text \<open>
  A JavaScript number that may be \<open>NaN\<close>: \<open>undefined + windowMs - now\<close> is
  \<open>NaN\<close>, which is what \<open>retryAfterMs\<close> becomes when \<open>timestamps[0]\<close> is
  read from an empty array.
\<close>

datatype jsnum = Num int | NaN

record RateLimitResult =
  allowed :: bool
  retryAfterMs :: jsnum
  remaining :: int

text \<open>The module-level \<open>store\<close>: a map from key to the entry's \<open>timestamps\<close> array.\<close>

type_synonym rl_store = "string \<rightharpoonup> int list"

text \<open>\<open>entry.timestamps.filter((t) => now - t < windowMs)\<close>\<close>

definition in_window :: "int \<Rightarrow> int \<Rightarrow> int list \<Rightarrow> int list" where
  "in_window now windowMs ts = filter (\<lambda>t. now - t < windowMs) ts"

text \<open>\<open>store.get(key) || { timestamps: [] }\<close>\<close>

definition stored_timestamps :: "rl_store \<Rightarrow> string \<Rightarrow> int list" where
  "stored_timestamps store key = (case store key of None \<Rightarrow> [] | Some ts \<Rightarrow> ts)"

definition checkRateLimit ::
  "rl_store \<Rightarrow> int \<Rightarrow> string \<Rightarrow> int \<Rightarrow> int \<Rightarrow> RateLimitResult \<times> rl_store" where
  "checkRateLimit store now key maxRequests windowMs =
     (let ts = in_window now windowMs (stored_timestamps store key)
      in if maxRequests \<le> int (length ts)
         then (\<lparr>allowed = False,
                retryAfterMs = (case ts of [] \<Rightarrow> NaN
                                | oldestInWindow # _ \<Rightarrow> Num (oldestInWindow + windowMs - now)),
                remaining = 0\<rparr>,
               store(key \<mapsto> ts))
         else (\<lparr>allowed = True, retryAfterMs = Num 0,
                remaining = maxRequests - int (length (ts @ [now]))\<rparr>,
               store(key \<mapsto> ts @ [now])))"

text \<open>
  The numbers of the source are IEEE doubles; the model computes with integers. A double
  holds every integer of magnitude at most \<open>2^53\<close> exactly, so the differences and sums
  of \<open>checkRateLimit\<close> are the same in both as long as they stay in that range. They do
  when the clock readings and the recorded timestamps are integers of magnitude at most
  \<open>2^52\<close> (the readings of \<open>Date.now()\<close> are, until the year 144683) and the window is
  at most fifteen minutes.
\<close>

definition clock_reading :: "int \<Rightarrow> bool" where
  "clock_reading t = (- (2 ^ 52) \<le> t \<and> t \<le> 2 ^ 52)"

text \<open>
  The callback that \<open>startCleanup\<close> hands to \<open>setInterval\<close>, run at clock reading
  \<open>now\<close>: in every entry it keeps the timestamps younger than fifteen minutes, whatever
  window the entry is used with, and it deletes an entry that has none left.
\<close>

definition cleanup_tick :: "rl_store \<Rightarrow> int \<Rightarrow> rl_store" where
  "cleanup_tick store now =
     (\<lambda>key. case store key of
              None \<Rightarrow> None
            | Some ts \<Rightarrow>
                (let kept = filter (\<lambda>t. now - t < 15 * 60 * 1000) ts
                 in if kept = [] then None else Some kept))"

text \<open>
  What happens to the store over time: calls of \<open>checkRateLimit\<close> for one key, and
  ticks of the cleanup timer (every five minutes, \<open>CLEANUP_INTERVAL\<close>) in between, each
  with its clock reading. A run returns the answers to the calls, in order.
\<close>

datatype rl_event = Call int | Tick int

fun event_time :: "rl_event \<Rightarrow> int" where
  "event_time (Call now) = now"
| "event_time (Tick now) = now"

fun call_times :: "rl_event list \<Rightarrow> int list" where
  "call_times [] = []"
| "call_times (Call now # events) = now # call_times events"
| "call_times (Tick now # events) = call_times events"

fun rate_limiter_run ::
  "rl_store \<Rightarrow> string \<Rightarrow> int \<Rightarrow> int \<Rightarrow> rl_event list \<Rightarrow> RateLimitResult list \<times> rl_store" where
  "rate_limiter_run store key maxRequests windowMs [] = ([], store)"
| "rate_limiter_run store key maxRequests windowMs (Call now # events) =
     (let (r, store') = checkRateLimit store now key maxRequests windowMs;
          (rs, store'') = rate_limiter_run store' key maxRequests windowMs events
      in (r # rs, store''))"
| "rate_limiter_run store key maxRequests windowMs (Tick now # events) =
     rate_limiter_run (cleanup_tick store now) key maxRequests windowMs events"

text \<open>
  The same calls with no tick of the timer in between; the runs above are compared with
  it.
\<close>

fun checkRateLimit_calls ::
  "rl_store \<Rightarrow> string \<Rightarrow> int \<Rightarrow> int \<Rightarrow> int list \<Rightarrow> RateLimitResult list \<times> rl_store" where
  "checkRateLimit_calls store key maxRequests windowMs [] = ([], store)"
| "checkRateLimit_calls store key maxRequests windowMs (now # nows) =
     (let (r, store') = checkRateLimit store now key maxRequests windowMs;
          (rs, store'') = checkRateLimit_calls store' key maxRequests windowMs nows
      in (r # rs, store''))"

section \<open>CSRF double-submit check (\<open>src/lib/csrf.ts\<close>)\<close>

text \<open>
  The value of one hexadecimal digit, as Node's decoder reads it (both cases of the
  letters); \<open>None\<close> for any other character.
\<close>

definition unhex :: "char \<Rightarrow> nat option" where
  "unhex c =
     (let n = (of_char c :: nat)
      in if 48 \<le> n \<and> n \<le> 57 then Some (n - 48)
         else if 97 \<le> n \<and> n \<le> 102 then Some (n - 87)
         else if 65 \<le> n \<and> n \<le> 70 then Some (n - 55)
         else None)"

text \<open>
  \<open>Buffer.from(s, "hex")\<close>: the string is read two characters at a time, and decoding
  stops, keeping the bytes read so far, at the first pair that is not two hexadecimal
  digits or at a trailing single character. It never throws.
\<close>

fun Buffer_from_hex :: "string \<Rightarrow> nat list" where
  "Buffer_from_hex (a # b # rest) =
     (case unhex a of
        None \<Rightarrow> []
      | Some hi \<Rightarrow>
          (case unhex b of
             None \<Rightarrow> []
           | Some lo \<Rightarrow> (16 * hi + lo) # Buffer_from_hex rest))"
| "Buffer_from_hex _ = []"

datatype crypto_error = ERR_CRYPTO_TIMING_SAFE_EQUAL_LENGTH

text \<open>
  \<open>crypto.timingSafeEqual(a, b)\<close> throws when the two buffers differ in byte length and
  otherwise tells whether they hold the same bytes.
\<close>

definition timingSafeEqual :: "nat list \<Rightarrow> nat list \<Rightarrow> crypto_error + bool" where
  "timingSafeEqual a b =
     (if length a = length b then Inr (a = b) else Inl ERR_CRYPTO_TIMING_SAFE_EQUAL_LENGTH)"

text \<open>
  \<open>validateCsrf(cookieValue, headerValue)\<close>. \<open>None\<close> is \<open>undefined\<close>; the empty
  string is falsy as well. The \<open>catch\<close> turns the length error into \<open>false\<close>.
\<close>

definition validateCsrf :: "string option \<Rightarrow> string option \<Rightarrow> bool" where
  "validateCsrf cookieValue headerValue =
     (case cookieValue of
        None \<Rightarrow> False
      | Some c \<Rightarrow>
          (case headerValue of
             None \<Rightarrow> False
           | Some h \<Rightarrow>
               if c = [] then False
               else if h = [] then False
               else if length c = 64 then
                 (if length h = 64 then
                    (case timingSafeEqual (Buffer_from_hex c) (Buffer_from_hex h) of
                       Inl _ \<Rightarrow> False
                     | Inr eq \<Rightarrow> eq)
                  else False)
               else False))"

text \<open>A character of a well-formed token (what \<open>generateCsrfToken\<close> emits is lower case).\<close>

definition is_hex_string :: "string \<Rightarrow> bool" where
  "is_hex_string s = list_all (\<lambda>c. unhex c \<noteq> None) s"

section \<open>Command builder (\<open>src/lib/command-builder.ts\<close>)\<close>

record CommandSpec =
  command :: string
  stdin :: "string option"
  sudo :: bool

datatype validation_error =
    InvalidUsername | InvalidShareName
  | PathNotAbsolute | PathInvalidCharacters | PathTraversal | PathNullByte
  | InvalidServiceName | InvalidServiceAction
  | PasswordTooShort | PasswordTooLong

definition is_lower :: "char \<Rightarrow> bool" where
  "is_lower c = (97 \<le> (of_char c :: nat) \<and> (of_char c :: nat) \<le> 122)"

definition is_upper :: "char \<Rightarrow> bool" where
  "is_upper c = (65 \<le> (of_char c :: nat) \<and> (of_char c :: nat) \<le> 90)"

definition is_digit :: "char \<Rightarrow> bool" where
  "is_digit c = (48 \<le> (of_char c :: nat) \<and> (of_char c :: nat) \<le> 57)"

text \<open>\<open>s.includes(needle)\<close>: the needle occurs as a contiguous piece of \<open>s\<close>.\<close>

fun str_includes :: "string \<Rightarrow> string \<Rightarrow> bool" where
  "str_includes [] needle = (needle = [])"
| "str_includes (c # cs) needle = (prefix needle (c # cs) \<or> str_includes cs needle)"

text \<open>\<open>/^[a-z_][a-z0-9_-]{0,30}$/\<close>\<close>

definition USERNAME_REGEX :: "string \<Rightarrow> bool" where
  "USERNAME_REGEX s =
     (case s of
        [] \<Rightarrow> False
      | c # cs \<Rightarrow> (is_lower c \<or> c = CHR ''_'') \<and> length cs \<le> 30
                 \<and> list_all (\<lambda>d. is_lower d \<or> is_digit d \<or> d = CHR ''_'' \<or> d = CHR ''-'') cs)"

text \<open>\<open>/^[a-zA-Z0-9_-]{1,64}$/\<close>\<close>

definition SHARE_NAME_REGEX :: "string \<Rightarrow> bool" where
  "SHARE_NAME_REGEX s =
     (1 \<le> length s \<and> length s \<le> 64
      \<and> list_all (\<lambda>d. is_lower d \<or> is_upper d \<or> is_digit d \<or> d = CHR ''_'' \<or> d = CHR ''-'') s)"

text \<open>\<open>/^[a-zA-Z0-9/_.-]+$/\<close>\<close>

definition safe_path_char :: "char \<Rightarrow> bool" where
  "safe_path_char d =
     (is_lower d \<or> is_upper d \<or> is_digit d
      \<or> d = CHR ''/'' \<or> d = CHR ''_'' \<or> d = CHR ''.'' \<or> d = CHR ''-'')"

definition SAFE_PATH_REGEX :: "string \<Rightarrow> bool" where
  "SAFE_PATH_REGEX s = (s \<noteq> [] \<and> list_all safe_path_char s)"

definition SERVICE_NAMES :: "string list" where
  "SERVICE_NAMES = [''smbd'', ''nmbd'']"

definition SERVICE_ACTIONS :: "string list" where
  "SERVICE_ACTIONS = [''status'', ''start'', ''stop'', ''restart'', ''reload'']"

definition validateUsername :: "string \<Rightarrow> validation_error + unit" where
  "validateUsername username = (if USERNAME_REGEX username then Inr () else Inl InvalidUsername)"

definition validateShareName :: "string \<Rightarrow> validation_error + unit" where
  "validateShareName name = (if SHARE_NAME_REGEX name then Inr () else Inl InvalidShareName)"

definition validatePath :: "string \<Rightarrow> validation_error + unit" where
  "validatePath path =
     (if \<not> prefix ''/'' path then Inl PathNotAbsolute
      else if \<not> SAFE_PATH_REGEX path then Inl PathInvalidCharacters
      else if str_includes path ''..'' then Inl PathTraversal
      else if str_includes path [CHR 0x00] then Inl PathNullByte
      else Inr ())"

definition validateServiceName :: "string \<Rightarrow> validation_error + unit" where
  "validateServiceName name = (if List.member SERVICE_NAMES name then Inr () else Inl InvalidServiceName)"

definition validateServiceAction :: "string \<Rightarrow> validation_error + unit" where
  "validateServiceAction action =
     (if List.member SERVICE_ACTIONS action then Inr () else Inl InvalidServiceAction)"

definition validatePassword :: "string \<Rightarrow> validation_error + unit" where
  "validatePassword password =
     (if length password < 8 then Inl PasswordTooShort
      else if 128 < length password then Inl PasswordTooLong
      else Inr ())"

text \<open>Sequencing of validators: the first one that throws ends the constructor.\<close>

definition after :: "validation_error + unit \<Rightarrow> validation_error + 'a \<Rightarrow> validation_error + 'a" where
  "after check rest = (case check of Inl e \<Rightarrow> Inl e | Inr _ \<Rightarrow> rest)"

subsection \<open>Constructors without arguments\<close>

definition uptime :: CommandSpec where
  "uptime = \<lparr>command = ''uptime'', stdin = None, sudo = False\<rparr>"

definition freeMemory :: CommandSpec where
  "freeMemory = \<lparr>command = ''free -m'', stdin = None, sudo = False\<rparr>"

definition diskUsage :: CommandSpec where
  "diskUsage = \<lparr>command = ''df -h'', stdin = None, sudo = False\<rparr>"

definition sambaVersion :: CommandSpec where
  "sambaVersion = \<lparr>command = ''smbd --version'', stdin = None, sudo = False\<rparr>"

definition hostname :: CommandSpec where
  "hostname = \<lparr>command = ''hostname'', stdin = None, sudo = False\<rparr>"

definition listSambaUsers :: CommandSpec where
  "listSambaUsers = \<lparr>command = ''pdbedit -L -v'', stdin = None, sudo = True\<rparr>"

definition smbStatus :: CommandSpec where
  "smbStatus =
     \<lparr>command = ''smbstatus --json 2>/dev/null || smbstatus'', stdin = None, sudo = True\<rparr>"

definition listLogFiles :: CommandSpec where
  "listLogFiles = \<lparr>command = ''ls -la /var/log/samba/'', stdin = None, sudo = True\<rparr>"

definition readSmbConf :: CommandSpec where
  "readSmbConf = \<lparr>command = ''cat /etc/samba/smb.conf'', stdin = None, sudo = True\<rparr>"





definition ensureSshDir :: CommandSpec where
  "ensureSshDir = \<lparr>command = ''mkdir -p ~/.ssh && chmod 700 ~/.ssh'', stdin = None, sudo = False\<rparr>"

definition readAuthorizedKeys :: CommandSpec where
  "readAuthorizedKeys =
     \<lparr>command = ''cat ~/.ssh/authorized_keys 2>/dev/null'', stdin = None, sudo = False\<rparr>"

subsection \<open>Constructors with validated arguments\<close>

text \<open>
  The constructors that check their string arguments with one of the validators above.
  (\<open>readLog\<close>, which looks its first argument up in a table and checks that its
  second is an integer from 1 to 1000, is left out.)
\<close>

definition serviceControl :: "string \<Rightarrow> string \<Rightarrow> validation_error + CommandSpec" where
  "serviceControl service action =
     after (validateServiceName service)
       (after (validateServiceAction action)
          (Inr \<lparr>command = ''systemctl '' @ action @ '' '' @ service, stdin = None,
                sudo = (action \<noteq> ''status'')\<rparr>))"

definition addSambaUser :: "string \<Rightarrow> string \<Rightarrow> validation_error + CommandSpec" where
  "addSambaUser username password =
     after (validateUsername username)
       (after (validatePassword password)
          (Inr \<lparr>command = ''smbpasswd -a -s '' @ username,
                stdin = Some (password @ [CHR 0x0A] @ password @ [CHR 0x0A]), sudo = True\<rparr>))"

definition changeSambaPassword :: "string \<Rightarrow> string \<Rightarrow> validation_error + CommandSpec" where
  "changeSambaPassword username password =
     after (validateUsername username)
       (after (validatePassword password)
          (Inr \<lparr>command = ''smbpasswd -s '' @ username,
                stdin = Some (password @ [CHR 0x0A] @ password @ [CHR 0x0A]), sudo = True\<rparr>))"

definition deleteSambaUser :: "string \<Rightarrow> validation_error + CommandSpec" where
  "deleteSambaUser username =
     after (validateUsername username)
       (Inr \<lparr>command = ''smbpasswd -x '' @ username, stdin = None, sudo = True\<rparr>)"

definition enableSambaUser :: "string \<Rightarrow> validation_error + CommandSpec" where
  "enableSambaUser username =
     after (validateUsername username)
       (Inr \<lparr>command = ''smbpasswd -e '' @ username, stdin = None, sudo = True\<rparr>)"

definition disableSambaUser :: "string \<Rightarrow> validation_error + CommandSpec" where
  "disableSambaUser username =
     after (validateUsername username)
       (Inr \<lparr>command = ''smbpasswd -d '' @ username, stdin = None, sudo = True\<rparr>)"

definition checkUserExists :: "string \<Rightarrow> validation_error + CommandSpec" where
  "checkUserExists username =
     after (validateUsername username)
       (Inr \<lparr>command = ''id '' @ username, stdin = None, sudo = False\<rparr>)"

definition listDirectory :: "string \<Rightarrow> validation_error + CommandSpec" where
  "listDirectory safePath =
     after (validatePath safePath)
       (Inr \<lparr>command = ''ls -la --time-style=long-iso '' @ safePath, stdin = None, sudo = False\<rparr>)"

definition makeDirectory :: "string \<Rightarrow> validation_error + CommandSpec" where
  "makeDirectory safePath =
     after (validatePath safePath)
       (Inr \<lparr>command = ''mkdir -p '' @ safePath, stdin = None, sudo = False\<rparr>)"

definition removeFile :: "string \<Rightarrow> validation_error + CommandSpec" where
  "removeFile safePath =
     after (validatePath safePath)
       (Inr \<lparr>command = ''rm '' @ safePath, stdin = None, sudo = False\<rparr>)"

definition removeDirectory :: "string \<Rightarrow> validation_error + CommandSpec" where
  "removeDirectory safePath =
     after (validatePath safePath)
       (Inr \<lparr>command = ''rm -rf '' @ safePath, stdin = None, sudo = False\<rparr>)"

definition renameFile :: "string \<Rightarrow> string \<Rightarrow> validation_error + CommandSpec" where
  "renameFile safeSrc safeDst =
     after (validatePath safeSrc)
       (after (validatePath safeDst)
          (Inr \<lparr>command = ''mv '' @ safeSrc @ '' '' @ safeDst, stdin = None, sudo = False\<rparr>))"

definition getFileInfo :: "string \<Rightarrow> validation_error + CommandSpec" where
  "getFileInfo safePath =
     after (validatePath safePath)
       (Inr \<lparr>command = ''stat '' @ safePath, stdin = None, sudo = False\<rparr>)"

subsection \<open>SSH key management\<close>

text \<open>
  \<open>s.replace(/"/g, '\\"')\<close>: every double quote (character 0x22) gets a backslash
  (character 0x5C) in front of it; every other character, the backslash included, is
  kept as it is.
\<close>

definition escape_double_quotes :: "string \<Rightarrow> string" where
  "escape_double_quotes s =
     concat (map (\<lambda>c. if c = CHR 0x22 then [CHR 0x5C, CHR 0x22] else [c]) s)"

text \<open>Neither constructor calls a validator, and neither can throw.\<close>

definition addAuthorizedKey :: "string \<Rightarrow> CommandSpec" where
  \<open>addAuthorizedKey key =
     \<lparr>command = ''echo "'' @ escape_double_quotes key
                 @ ''" >> ~/.ssh/authorized_keys && chmod 600 ~/.ssh/authorized_keys'',
      stdin = None, sudo = False\<rparr>\<close>

definition removeAuthorizedKey :: "string \<Rightarrow> CommandSpec" where
  \<open>removeAuthorizedKey fingerprintOrSnippet =
     \<lparr>command = ''grep -v "'' @ escape_double_quotes fingerprintOrSnippet
                 @ ''" ~/.ssh/authorized_keys > ~/.ssh/authorized_keys.tmp 2>/dev/null; mv ~/.ssh/authorized_keys.tmp ~/.ssh/authorized_keys || rm -f ~/.ssh/authorized_keys.tmp'',
      stdin = None, sudo = False\<rparr>\<close>

text \<open>The characters the shell acts on inside or outside double quotes.\<close>

definition shell_metacharacters :: "char set" where
  \<open>shell_metacharacters =
     {CHR '';'', CHR ''|'', CHR ''&'', CHR ''$'', CHR 0x60, CHR 0x0A, CHR 0x22, CHR 0x5C,
      CHR ''<'', CHR ''>'', CHR ''('', CHR '')''}\<close>

section \<open>Command execution (\<open>executeCommand\<close> in \<open>src/lib/ssh.ts\<close>)\<close>

text \<open>
  The fields of \<open>SSHCredentials\<close> carry the prefix \<open>ssh_\<close>: the plain names are
  the parameter names of the functions below.
\<close>

record SSHCredentials =
  ssh_host :: string
  ssh_port :: int
  ssh_username :: string
  ssh_password :: string

record SSHExecResult =
  stdout :: string
  stderr :: string
  code :: int

text \<open>
  The errors the promises of this module reject with: the error of the connection, the
  error that \<open>conn.exec\<close>, \<open>conn.sftp\<close> or the write stream reports, and the two
  timeouts, \<open>Command timed out after 30s\<close> of \<open>executeCommand\<close> and
  \<open>SFTP operation timed out\<close> of \<open>sftpWriteFile\<close>.
\<close>

datatype ssh_error = ConnectionError string | ExecError string | CommandTimedOut | SftpTimedOut

text \<open>An operation on the input channel of the remote command: \<open>stream.write(s)\<close>, \<open>stream.end()\<close>.\<close>

datatype channel_op = Write string | End

text \<open>
  What the transport does during one call; the function itself is deterministic in it.
  The connection fails before it is ready (the \<open>error\<close> event, which the ready timeout
  raises as well); \<open>conn.exec\<close> calls back with an error; the stream is opened and
  closes, after these chunks on its two output channels and with this exit code
  (\<open>None\<close> for the \<open>null\<close> of a command ended by a signal); or the stream is opened
  and the thirty-second command timer fires first.
\<close>

datatype transport =
    ConnectFails string
  | ExecFails string
  | StreamCloses "string list" "string list" "int option"
  | StreamHangs

text \<open>\<open>spec.sudo ? `sudo -S ${spec.command}` : spec.command\<close>\<close>

definition fullCommand :: "CommandSpec \<Rightarrow> string" where
  "fullCommand spec = (if sudo spec then ''sudo -S '' @ command spec else command spec)"

text \<open>
  The last statements of the \<open>exec\<close> callback, in program order: the password when the
  command runs under \<open>sudo\<close>, the payload when \<open>spec.stdin\<close> is truthy (present and not
  empty), then the end of the channel.
\<close>

definition write_stdin :: "SSHCredentials \<Rightarrow> CommandSpec \<Rightarrow> channel_op list" where
  "write_stdin creds spec =
     (if sudo spec then [Write (ssh_password creds @ [CHR 0x0A])] else [])
     @ (case stdin spec of
          None \<Rightarrow> []
        | Some payload \<Rightarrow> if payload = [] then [] else [Write payload])
     @ [End]"

text \<open>The \<open>data\<close> handler of the error channel drops every chunk that holds the sudo prompt.\<close>

definition collect_stderr :: "string list \<Rightarrow> string" where
  "collect_stderr chunks =
     concat (filter (\<lambda>text. \<not> str_includes text ''[sudo] password'') chunks)"

record execution =
  executed :: "string option"
  channel :: "channel_op list"
  settled :: "ssh_error + SSHExecResult"

definition executeCommand :: "SSHCredentials \<Rightarrow> CommandSpec \<Rightarrow> transport \<Rightarrow> execution" where
  "executeCommand creds spec tr =
     (case tr of
        ConnectFails err \<Rightarrow>
          \<lparr>executed = None, channel = [], settled = Inl (ConnectionError err)\<rparr>
      | ExecFails err \<Rightarrow>
          \<lparr>executed = Some (fullCommand spec), channel = [], settled = Inl (ExecError err)\<rparr>
      | StreamCloses out err exit_code \<Rightarrow>
          \<lparr>executed = Some (fullCommand spec), channel = write_stdin creds spec,
           settled = Inr \<lparr>stdout = concat out, stderr = collect_stderr err,
                          code = (case exit_code of None \<Rightarrow> 0 | Some c \<Rightarrow> c)\<rparr>\<rparr>
      | StreamHangs \<Rightarrow>
          \<lparr>executed = Some (fullCommand spec), channel = write_stdin creds spec,
           settled = Inl CommandTimedOut\<rparr>)"

text \<open>Whether the \<open>exec\<close> callback received a stream.\<close>

definition stream_opened :: "transport \<Rightarrow> bool" where
  "stream_opened tr =
     (case tr of
        ConnectFails _ \<Rightarrow> False
      | ExecFails _ \<Rightarrow> False
      | StreamCloses _ _ _ \<Rightarrow> True
      | StreamHangs \<Rightarrow> True)"

section \<open>Configuration editor (\<open>PUT\<close> in \<open>src/app/api/config/route.ts\<close>)\<close>




text \<open>
  A remote operation the handler has awaited, with the way its promise settled: a command,
  or an SFTP write of a file (path and content).
\<close>

datatype remote_call =
    Executed CommandSpec "ssh_error + SSHExecResult"
  | Written string string "ssh_error + unit"

record response =
  status :: nat
  message :: string

text \<open>
  The remote host, as far as the handler acts on it: its files (path to content), how often
  the Samba service has been reloaded, the password that \<open>sudo\<close> asks for, and which
  configurations the \<open>testparm\<close> of the host accepts. During a request the host changes
  only through the operations of that request.
\<close>

record remote_host =
  files :: "string \<rightharpoonup> string"
  reloads :: nat
  sudo_password :: string
  testparm_accepts :: "string \<Rightarrow> bool"

record put_run =
  answer :: response
  calls :: "remote_call list"
  audit :: "bool list"
  remote :: remote_host




subsection \<open>The host\<close>







subsection \<open>The handler\<close>












text \<open>Whether \<open>sudo\<close> on the host accepts the password line of these credentials.\<close>

definition sudo_accepts :: "remote_host \<Rightarrow> SSHCredentials \<Rightarrow> bool" where
  "sudo_accepts host creds =
     (take (length (sudo_password host) + 1) (ssh_password creds @ [CHR 0x0A])
        = sudo_password host @ [CHR 0x0A])"

section \<open>Session identifiers (\<open>crypto.randomUUID\<close>, called by \<open>createSession\<close>)\<close>

text \<open>
  \<open>createSession\<close> takes its identifier from Node's \<open>crypto.randomUUID()\<close>, which
  fills sixteen bytes from the random generator and prints them as an RFC 4122
  version-4 UUID: byte 6 becomes \<open>(b & 0x0f) | 0x40\<close>, byte 8 becomes
  \<open>(b & 0x3f) | 0x80\<close>, and the bytes are written as lower-case hexadecimal in groups
  of 4, 2, 2, 2 and 6 bytes separated by hyphens. The sixteen random bytes are the
  argument of the model.
\<close>

type_synonym byte = "8 word"

definition version_byte :: "byte \<Rightarrow> byte" where
  "version_byte b = (b AND 0x0f) OR 0x40"

definition variant_byte :: "byte \<Rightarrow> byte" where
  "variant_byte b = (b AND 0x3f) OR 0x80"

definition uuid_v4_bytes :: "byte list \<Rightarrow> byte list" where
  "uuid_v4_bytes buf = buf[6 := version_byte (buf ! 6), 8 := variant_byte (buf ! 8)]"

definition hex_digit :: "nat \<Rightarrow> char" where
  "hex_digit n = ''0123456789abcdef'' ! n"

text \<open>The table \<open>kHexBytes\<close>: two digits for every byte.\<close>

definition kHexBytes :: "byte \<Rightarrow> string" where
  "kHexBytes b = [hex_digit (unat b div 16), hex_digit (unat b mod 16)]"

definition hex_bytes :: "byte list \<Rightarrow> string" where
  "hex_bytes bs = concat (map kHexBytes bs)"

definition serializeUUID :: "byte list \<Rightarrow> string" where
  "serializeUUID bs =
     hex_bytes (take 4 bs) @ ''-'' @ hex_bytes (take 2 (drop 4 bs)) @ ''-''
     @ hex_bytes (take 2 (drop 6 bs)) @ ''-'' @ hex_bytes (take 2 (drop 8 bs)) @ ''-''
     @ hex_bytes (drop 10 bs)"

definition randomUUID :: "byte list \<Rightarrow> string" where
  "randomUUID buf = serializeUUID (uuid_v4_bytes buf)"

text \<open>Everything the random generator can put into the sixteen bytes.\<close>

definition random_draws :: "byte list set" where
  "random_draws = {buf. length buf = 16}"

text \<open>The values each of the sixteen positions of a version-4 UUID can take.\<close>

definition uuid_positions :: "byte set list" where
  "uuid_positions =
     [UNIV, UNIV, UNIV, UNIV, UNIV, UNIV, range version_byte, UNIV,
      range variant_byte, UNIV, UNIV, UNIV, UNIV, UNIV, UNIV, UNIV]"

section \<open>Session vault (\<open>src/lib/session-vault.ts\<close>)\<close>

subsection \<open>Strings, their UTF-8 form and hexadecimal text\<close>

text \<open>
  A string of the language is a sequence of 16-bit code units. The password is the one
  string of which the module reads the code units, when the cipher takes it as \<open>utf8\<close>
  and gives it back as \<open>utf8\<close>; the other strings are only stored and returned.
\<close>

type_synonym js_string = "16 word list"

definition high_surrogate :: "16 word \<Rightarrow> bool" where
  "high_surrogate u = (0xD800 \<le> unat u \<and> unat u \<le> 0xDBFF)"

definition low_surrogate :: "16 word \<Rightarrow> bool" where
  "low_surrogate u = (0xDC00 \<le> unat u \<and> unat u \<le> 0xDFFF)"

text \<open>
  The code points that the encoder reads from a string: a high surrogate followed by a low
  one is one code point above \<open>0xFFFF\<close>, any other surrogate is read as the replacement
  character \<open>U+FFFD\<close>.
\<close>

fun code_points :: "js_string \<Rightarrow> nat list" where
  "code_points [] = []"
| "code_points [u] = (if high_surrogate u \<or> low_surrogate u then [0xFFFD] else [unat u])"
| "code_points (u # v # rest) =
     (if high_surrogate u \<and> low_surrogate v
      then (0x10000 + (unat u - 0xD800) * 0x400 + (unat v - 0xDC00)) # code_points rest
      else if high_surrogate u \<or> low_surrogate u then 0xFFFD # code_points (v # rest)
      else unat u # code_points (v # rest))"


text \<open>The one to four bytes of a code point in UTF-8.\<close>

definition utf8_bytes :: "nat \<Rightarrow> nat list" where
  "utf8_bytes cp =
     (if cp < 0x80 then [cp]
      else if cp < 0x800 then [0xC0 + cp div 0x40, 0x80 + cp mod 0x40]
      else if cp < 0x10000
      then [0xE0 + cp div 0x1000, 0x80 + cp div 0x40 mod 0x40, 0x80 + cp mod 0x40]
      else [0xF0 + cp div 0x40000, 0x80 + cp div 0x1000 mod 0x40, 0x80 + cp div 0x40 mod 0x40,
            0x80 + cp mod 0x40])"

text \<open>A string taken as \<open>utf8\<close>: the bytes that \<open>cipher.update(password, "utf8", _)\<close> encrypts.\<close>

definition utf8_encode :: "js_string \<Rightarrow> byte list" where
  "utf8_encode s = map of_nat (concat (map utf8_bytes (code_points s)))"

text \<open>
  The decoder of UTF-8, byte by byte. Its state is the number of continuation bytes that
  are still needed, the code point collected so far, and the range in which the next byte
  has to lie. A byte that cannot start a sequence gives \<open>U+FFFD\<close>; a byte that cannot
  continue the open sequence gives \<open>U+FFFD\<close> for that sequence and is then read as a
  first byte; an open sequence at the end of the input gives \<open>U+FFFD\<close>.
\<close>

type_synonym utf8_state = "nat \<times> nat \<times> nat \<times> nat"

definition utf8_idle :: utf8_state where
  "utf8_idle = (0, 0, 0x80, 0xBF)"

definition utf8_lead :: "nat \<Rightarrow> nat list \<times> utf8_state" where
  "utf8_lead n =
     (if n < 0x80 then ([n], utf8_idle)
      else if 0xC2 \<le> n \<and> n \<le> 0xDF then ([], (1, n - 0xC0, 0x80, 0xBF))
      else if 0xE0 \<le> n \<and> n \<le> 0xEF
      then ([], (2, n - 0xE0, if n = 0xE0 then 0xA0 else 0x80, if n = 0xED then 0x9F else 0xBF))
      else if 0xF0 \<le> n \<and> n \<le> 0xF4
      then ([], (3, n - 0xF0, if n = 0xF0 then 0x90 else 0x80, if n = 0xF4 then 0x8F else 0xBF))
      else ([0xFFFD], utf8_idle))"

definition utf8_step :: "utf8_state \<Rightarrow> nat \<Rightarrow> nat list \<times> utf8_state" where
  "utf8_step s n =
     (case s of (needed, cp, lower, upper) \<Rightarrow>
        if needed = 0 then utf8_lead n
        else if n < lower \<or> upper < n
        then (0xFFFD # fst (utf8_lead n), snd (utf8_lead n))
        else if needed = 1 then ([cp * 0x40 + (n - 0x80)], utf8_idle)
        else ([], (needed - 1, cp * 0x40 + (n - 0x80), 0x80, 0xBF)))"

fun utf8_code_points :: "utf8_state \<Rightarrow> nat list \<Rightarrow> nat list" where
  "utf8_code_points s [] = (if fst s = 0 then [] else [0xFFFD])"
| "utf8_code_points s (n # ns) = fst (utf8_step s n) @ utf8_code_points (snd (utf8_step s n)) ns"

text \<open>The code units of a code point: itself, or a surrogate pair above \<open>0xFFFF\<close>.\<close>

definition utf16_units :: "nat \<Rightarrow> js_string" where
  "utf16_units cp =
     (if cp < 0x10000 then [of_nat cp]
      else [of_nat (0xD800 + (cp - 0x10000) div 0x400),
            of_nat (0xDC00 + (cp - 0x10000) mod 0x400)])"

text \<open>Bytes given back as \<open>utf8\<close>: the string that \<open>decipher.update(_, _, "utf8")\<close> returns.\<close>

definition utf8_decode :: "byte list \<Rightarrow> js_string" where
  "utf8_decode bs = concat (map utf16_units (utf8_code_points utf8_idle (map unat bs)))"



text \<open>
  \<open>Buffer.from(s, "hex")\<close> as bytes; \<open>buf.toString("hex")\<close> and the \<open>hex\<close> output of
  the cipher are \<open>hex_bytes\<close>.
\<close>

definition bytes_from_hex :: "string \<Rightarrow> byte list" where
  "bytes_from_hex s = map of_nat (Buffer_from_hex s)"

subsection \<open>The vault\<close>

text \<open>
  The stored record. The three fields that share their name with a parameter of
  \<open>createSession\<close> carry the prefix \<open>session_\<close>.
\<close>

record SessionData =
  session_username :: string
  encryptedPassword :: string
  session_iv :: string
  authTag :: string
  session_host :: string
  session_port :: int
  createdAt :: int
  lastAccessedAt :: int

text \<open>
  What the module takes from outside: the two configuration values, the key that
  \<open>getVaultKey\<close> returns (the same at every call as long as \<open>VAULT_KEY\<close> is not changed),
  and AES-256-GCM. \<open>aes_256_gcm_seal key iv plaintext\<close> gives the ciphertext and the
  authentication tag, or \<open>None\<close> where \<open>createCipheriv\<close> throws (a key that is not 32
  bytes long); \<open>aes_256_gcm_open key iv tag ciphertext\<close> gives the plaintext, or \<open>None\<close>
  where \<open>createDecipheriv\<close>, \<open>setAuthTag\<close> or \<open>decipher.final\<close> throws.
\<close>

record vault_env =
  SESSION_TTL_MS :: int
  MAX_SESSIONS :: int
  vault_key :: "byte list"
  aes_256_gcm_seal :: "byte list \<Rightarrow> byte list \<Rightarrow> byte list \<Rightarrow> (byte list \<times> byte list) option"
  aes_256_gcm_open :: "byte list \<Rightarrow> byte list \<Rightarrow> byte list \<Rightarrow> byte list \<Rightarrow> byte list option"

text \<open>
  \<open>encryptPassword(password)\<close>, with the bytes drawn by \<open>crypto.randomBytes(16)\<close> as an
  argument: the password is encrypted as \<open>utf8\<close>, and the ciphertext, the initialisation
  vector and the tag are returned as hexadecimal text. \<open>None\<close> when it throws.
\<close>

definition encryptPassword ::
  "vault_env \<Rightarrow> byte list \<Rightarrow> js_string \<Rightarrow> (string \<times> string \<times> string) option" where
  "encryptPassword env iv password =
     (case aes_256_gcm_seal env (vault_key env) iv (utf8_encode password) of
        None \<Rightarrow> None
      | Some (ciphertext, tag) \<Rightarrow> Some (hex_bytes ciphertext, hex_bytes iv, hex_bytes tag))"

text \<open>
  \<open>decryptPassword(encrypted, iv, authTag)\<close>: the three texts are read as hexadecimal
  (\<open>decipher.update\<close> throws on a text of odd length), and the plaintext is returned as
  \<open>utf8\<close>. \<open>None\<close> when it throws.
\<close>

definition decryptPassword :: "vault_env \<Rightarrow> string \<Rightarrow> string \<Rightarrow> string \<Rightarrow> js_string option" where
  "decryptPassword env encrypted iv tag =
     (if odd (length encrypted) then None
      else (case aes_256_gcm_open env (vault_key env) (bytes_from_hex iv) (bytes_from_hex tag)
                   (bytes_from_hex encrypted) of
              None \<Rightarrow> None
            | Some plaintext \<Rightarrow> Some (utf8_decode plaintext)))"

text \<open>
  The module-level \<open>sessions\<close> map, in insertion order: \<open>Map.set\<close> on a present key
  replaces the value in place, on a new key appends (\<open>AList.update\<close>);
  \<open>Map.delete\<close> is \<open>AList.delete\<close>; \<open>Map.get\<close> is \<open>map_of\<close>.
\<close>

type_synonym vault = "(string \<times> SessionData) list"

text \<open>
  The search loop of \<open>createSession\<close>, with its two variables \<open>oldestSid\<close> and
  \<open>oldestTime\<close>; \<open>None\<close> is the initial \<open>Infinity\<close>.
\<close>

fun oldest_session :: "vault \<Rightarrow> string \<Rightarrow> int option \<Rightarrow> string \<times> int option" where
  "oldest_session [] oldestSid oldestTime = (oldestSid, oldestTime)"
| "oldest_session ((sid, session) # rest) oldestSid oldestTime =
     (if (case oldestTime of None \<Rightarrow> True | Some t \<Rightarrow> lastAccessedAt session < t)
      then oldest_session rest sid (Some (lastAccessedAt session))
      else oldest_session rest oldestSid oldestTime)"

text \<open>
  The block \<open>if (sessions.size >= MAX_SESSIONS) { ... }\<close>. An empty \<open>oldestSid\<close> is
  falsy, and then nothing is deleted.
\<close>

definition enforce_max_sessions :: "vault_env \<Rightarrow> vault \<Rightarrow> vault" where
  "enforce_max_sessions env sessions =
     (if MAX_SESSIONS env \<le> int (length sessions)
      then (let oldestSid = fst (oldest_session sessions [] None)
            in if oldestSid \<noteq> [] then AList.delete oldestSid sessions else sessions)
      else sessions)"

text \<open>
  \<open>createSession(username, password, host, port)\<close>. The value of \<open>Date.now()\<close>, the
  identifier drawn by \<open>crypto.randomUUID()\<close> and the bytes drawn by
  \<open>crypto.randomBytes(16)\<close> in \<open>encryptPassword\<close> are arguments. The result is the
  returned identifier (\<open>None\<close> when the encryption throws, which happens after the
  eviction) and the map.
\<close>

definition createSession ::
  "vault_env \<Rightarrow> vault \<Rightarrow> int \<Rightarrow> string \<Rightarrow> byte list
     \<Rightarrow> string \<Rightarrow> js_string \<Rightarrow> string \<Rightarrow> int \<Rightarrow> string option \<times> vault" where
  "createSession env sessions now sid iv username password host port =
     (let sessions1 = enforce_max_sessions env sessions
      in case encryptPassword env iv password of
           None \<Rightarrow> (None, sessions1)
         | Some (encrypted, iv_hex, tag) \<Rightarrow>
             (Some sid,
              AList.update sid
                \<lparr>session_username = username, encryptedPassword = encrypted,
                 session_iv = iv_hex, authTag = tag, session_host = host, session_port = port,
                 createdAt = now, lastAccessedAt = now\<rparr>
                sessions1))"

text \<open>
  The object that \<open>getSession\<close> returns; its fields carry the prefix \<open>got_\<close>.
\<close>

record session_credentials =
  got_username :: string
  got_password :: js_string
  got_host :: string
  got_port :: int

text \<open>
  \<open>getSession(sid)\<close>. \<open>now\<close> is the clock reading of the expiry check, \<open>now'\<close> the one
  stored as the new \<open>lastAccessedAt\<close>.
\<close>

definition getSession ::
  "vault_env \<Rightarrow> vault \<Rightarrow> int \<Rightarrow> int \<Rightarrow> string \<Rightarrow> session_credentials option \<times> vault" where
  "getSession env sessions now now' sid =
     (case map_of sessions sid of
        None \<Rightarrow> (None, sessions)
      | Some session \<Rightarrow>
          if SESSION_TTL_MS env < now - lastAccessedAt session
          then (None, AList.delete sid sessions)
          else
            (let sessions1 = AList.update sid (session\<lparr>lastAccessedAt := now'\<rparr>) sessions
             in case decryptPassword env (encryptedPassword session) (session_iv session)
                       (authTag session) of
                  Some password \<Rightarrow>
                    (Some \<lparr>got_username = session_username session, got_password = password,
                           got_host = session_host session, got_port = session_port session\<rparr>,
                     sessions1)
                | None \<Rightarrow> (None, AList.delete sid sessions1)))"

definition destroySession :: "vault \<Rightarrow> string \<Rightarrow> bool \<times> vault" where
  "destroySession sessions sid = (map_of sessions sid \<noteq> None, AList.delete sid sessions)"

text \<open>The body of the periodic cleanup.\<close>

definition cleanup :: "vault_env \<Rightarrow> vault \<Rightarrow> int \<Rightarrow> vault" where
  "cleanup env sessions now =
     filter (\<lambda>(sid, session). \<not> SESSION_TTL_MS env < now - lastAccessedAt session) sessions"

text \<open>The operations on the vault, and a sequence of them run from a given map.\<close>

datatype vault_op =
    Create int string "byte list" string js_string string int
  | Get int int string
  | Destroy string
  | Sweep int

fun vault_step :: "vault_env \<Rightarrow> vault \<Rightarrow> vault_op \<Rightarrow> vault" where
  "vault_step env sessions (Create now sid iv username password host port) =
     snd (createSession env sessions now sid iv username password host port)"
| "vault_step env sessions (Get now now' sid) = snd (getSession env sessions now now' sid)"
| "vault_step env sessions (Destroy sid) = snd (destroySession sessions sid)"
| "vault_step env sessions (Sweep now) = cleanup env sessions now"

definition vault_run :: "vault_env \<Rightarrow> vault \<Rightarrow> vault_op list \<Rightarrow> vault" where
  "vault_run env sessions ops = foldl (vault_step env) sessions ops"

text \<open>
  The identifier of a \<open>Create\<close> is not the empty string (what \<open>randomUUID\<close>
  returns never is).
\<close>

fun fresh_sid_nonempty :: "vault_op \<Rightarrow> bool" where
  "fresh_sid_nonempty (Create now sid iv username password host port) = (sid \<noteq> [])"
| "fresh_sid_nonempty _ = True"

text \<open>No stored session was accessed earlier than this one.\<close>

definition least_recently_accessed :: "vault \<Rightarrow> SessionData \<Rightarrow> bool" where
  "least_recently_accessed sessions session =
     list_all (\<lambda>(sid, other). lastAccessedAt session \<le> lastAccessedAt other) sessions"

text \<open>What every map reached from the empty one satisfies.\<close>

definition vault_inv :: "vault_env \<Rightarrow> vault \<Rightarrow> bool" where
  "vault_inv env sessions =
     (distinct (map fst sessions) \<and> int (length sessions) \<le> MAX_SESSIONS env
      \<and> [] \<notin> fst ` set sessions)"

text \<open>
  A stand-in cipher for evaluating the vault on concrete inputs: it needs a key of 32
  bytes, the ciphertext is the reversed plaintext, the tag repeats the initialisation
  vector, and opening fails on any other tag.
\<close>

definition toy_vault :: "int \<Rightarrow> int \<Rightarrow> vault_env" where
  "toy_vault ttl cap =
     \<lparr>SESSION_TTL_MS = ttl, MAX_SESSIONS = cap, vault_key = replicate 32 0x2A,
      aes_256_gcm_seal =
        (\<lambda>key iv plaintext. if length key = 32 then Some (rev plaintext, iv) else None),
      aes_256_gcm_open =
        (\<lambda>key iv tag ciphertext.
           if length key = 32 \<and> tag = iv then Some (rev ciphertext) else None)\<rparr>"
section \<open>Path sandbox (\<open>src/lib/path-sandbox.ts\<close>)\<close>

subsection \<open>Node's \<open>path.posix\<close>\<close>

text \<open>\<open>s.split("/")\<close>: the pieces between the slashes; always at least one piece.\<close>

fun split_slash :: "string \<Rightarrow> string list" where
  "split_slash [] = [[]]"
| "split_slash (c # cs) =
     (if c = CHR ''/'' then [] # split_slash cs
      else (case split_slash cs of
              [] \<Rightarrow> [[c]]
            | seg # segs \<Rightarrow> (c # seg) # segs))"

text \<open>\<open>segments.join("/")\<close>\<close>

fun join_slash :: "string list \<Rightarrow> string" where
  "join_slash [] = []"
| "join_slash [seg] = seg"
| "join_slash (seg # seg' # segs) = seg @ ''/'' @ join_slash (seg' # segs)"

text \<open>
  The state machine of \<open>normalizeString\<close>, read segment by segment; \<open>res\<close> holds the
  segments kept so far, the last one first. An empty segment and \<open>.\<close> are skipped. On
  \<open>..\<close> the last kept segment is dropped, unless there is none or it is itself \<open>..\<close>: then
  \<open>..\<close> is kept when \<open>allowAboveRoot\<close> holds and skipped otherwise. Any other segment is
  kept.
\<close>

fun normalize_segments :: "bool \<Rightarrow> string list \<Rightarrow> string list \<Rightarrow> string list" where
  "normalize_segments allowAboveRoot res [] = rev res"
| "normalize_segments allowAboveRoot res (seg # segs) =
     (if seg = [] then normalize_segments allowAboveRoot res segs
      else if seg = ''.'' then normalize_segments allowAboveRoot res segs
      else if seg = ''..'' then
        (case res of
           [] \<Rightarrow> normalize_segments allowAboveRoot (if allowAboveRoot then [''..''] else []) segs
         | kept # below \<Rightarrow>
             if kept = ''..''
             then normalize_segments allowAboveRoot (if allowAboveRoot then ''..'' # res else res) segs
             else normalize_segments allowAboveRoot below segs)
      else normalize_segments allowAboveRoot (seg # res) segs)"

definition normalizeString :: "string \<Rightarrow> bool \<Rightarrow> string" where
  "normalizeString path allowAboveRoot =
     join_slash (normalize_segments allowAboveRoot [] (split_slash path))"

text \<open>
  The loop of \<open>path.posix.resolve\<close>: the arguments from the last to the first and then
  the working directory, until an absolute one has been prepended; empty ones are
  skipped. The result is \<open>resolvedPath\<close> and \<open>resolvedAbsolute\<close>.
\<close>

fun resolve_loop :: "string list \<Rightarrow> string \<Rightarrow> string \<times> bool" where
  "resolve_loop [] resolvedPath = (resolvedPath, False)"
| "resolve_loop (path # earlier) resolvedPath =
     (if path = [] then resolve_loop earlier resolvedPath
      else if hd path = CHR ''/'' then (path @ ''/'' @ resolvedPath, True)
      else resolve_loop earlier (path @ ''/'' @ resolvedPath))"

definition posix_resolve :: "string \<Rightarrow> string list \<Rightarrow> string" where
  "posix_resolve cwd args =
     (let (resolvedPath, resolvedAbsolute) = resolve_loop (rev args @ [cwd]) [];
          normalized = normalizeString resolvedPath (\<not> resolvedAbsolute)
      in if resolvedAbsolute then ''/'' @ normalized
         else if normalized = [] then ''.'' else normalized)"

definition posix_normalize :: "string \<Rightarrow> string" where
  "posix_normalize path =
     (if path = [] then ''.''
      else
        (let isAbsolute = (hd path = CHR ''/'');
             trailingSeparator = (last path = CHR ''/'');
             normalized = normalizeString path (\<not> isAbsolute)
         in if normalized = []
            then (if isAbsolute then ''/'' else if trailingSeparator then ''./'' else ''.'')
            else (if isAbsolute then ''/'' else [])
                 @ normalized @ (if trailingSeparator then ''/'' else [])))"

subsection \<open>\<open>sandboxPath\<close>\<close>

datatype sandbox_error = PathEmpty | NullByte | InvalidArgType | AccessDenied string

text \<open>\<open>s.replace(/\/+$/, "")\<close>\<close>

definition strip_trailing_slashes :: "string \<Rightarrow> string" where
  "strip_trailing_slashes s = rev (dropWhile (\<lambda>c. c = CHR ''/'') (rev s))"

text \<open>The test inside \<open>allowedRoots.some(...)\<close>.\<close>

definition within_root :: "string \<Rightarrow> string \<Rightarrow> bool" where
  "within_root resolved root =
     (let normalizedRoot = strip_trailing_slashes root
      in resolved = normalizedRoot \<or> prefix (normalizedRoot @ ''/'') resolved)"

text \<open>
  The \<open>if\<close> / \<open>else if\<close> / \<open>else\<close> that computes the first value of \<open>resolved\<close>.
  \<open>allowedRoots\<close> is what \<open>getAllowedRoots()\<close> returns and \<open>cwd\<close> what
  \<open>process.cwd()\<close> returns. An absent or empty \<open>basePath\<close> is falsy. With no allowed
  root at all, \<open>allowedRoots[0]\<close> is \<open>undefined\<close> and \<open>path.posix.resolve\<close> throws a
  type error.
\<close>

definition resolve_user_path ::
  "string list \<Rightarrow> string \<Rightarrow> string \<Rightarrow> string option \<Rightarrow> sandbox_error + string" where
  "resolve_user_path allowedRoots cwd userPath basePath =
     (case basePath of
        Some base \<Rightarrow>
          if base \<noteq> [] then Inr (posix_resolve cwd [base, userPath])
          else if hd userPath = CHR ''/'' then Inr (posix_normalize userPath)
          else (case allowedRoots of
                  [] \<Rightarrow> Inl InvalidArgType
                | firstRoot # _ \<Rightarrow> Inr (posix_resolve cwd [firstRoot, userPath]))
      | None \<Rightarrow>
          if hd userPath = CHR ''/'' then Inr (posix_normalize userPath)
          else (case allowedRoots of
                  [] \<Rightarrow> Inl InvalidArgType
                | firstRoot # _ \<Rightarrow> Inr (posix_resolve cwd [firstRoot, userPath])))"

text \<open>\<open>resolved.replace(/\/+$/, "") || "/"\<close>\<close>

definition strip_or_root :: "string \<Rightarrow> string" where
  "strip_or_root resolved0 =
     (let stripped = strip_trailing_slashes resolved0
      in if stripped = [] then ''/'' else stripped)"

text \<open>\<open>sandboxPath(userPath, basePath)\<close>\<close>

definition sandboxPath ::
  "string list \<Rightarrow> string \<Rightarrow> string \<Rightarrow> string option \<Rightarrow> sandbox_error + string" where
  "sandboxPath allowedRoots cwd userPath basePath =
     (if userPath = [] then Inl PathEmpty
      else if CHR 0x00 \<in> set userPath then Inl NullByte
      else
        (case resolve_user_path allowedRoots cwd userPath basePath of
           Inl e \<Rightarrow> Inl e
         | Inr resolved0 \<Rightarrow>
             (let resolved = strip_or_root resolved0
              in if list_ex (within_root resolved) allowedRoots
                 then Inr resolved
                 else Inl (AccessDenied resolved))))"

text \<open>
  The directory names of a path, from the top: its non-empty pieces. One path is equal to
  or below another when the names of the other are the first names of the one.
\<close>

definition path_segments :: "string \<Rightarrow> string list" where
  "path_segments p = filter (\<lambda>seg. seg \<noteq> []) (split_slash p)"

definition equal_or_below :: "string \<Rightarrow> string \<Rightarrow> bool" where
  "equal_or_below p root = prefix (path_segments root) (path_segments p)"

text \<open>
  An absolute path in normal form: a slash followed by its names, joined by single
  slashes, none of which is \<open>.\<close> or \<open>..\<close>.
\<close>

definition absolute_normal_form :: "string \<Rightarrow> bool" where
  "absolute_normal_form p =
     (p = ''/'' @ join_slash (path_segments p)
      \<and> list_all (\<lambda>seg. seg \<noteq> ''.'' \<and> seg \<noteq> ''..'') (path_segments p))"

text \<open>A name that can stand in a normal form: not empty, not \<open>.\<close> or \<open>..\<close>, without a slash.\<close>

definition proper_segment :: "string \<Rightarrow> bool" where
  "proper_segment seg =
     (seg \<noteq> [] \<and> seg \<noteq> ''.'' \<and> seg \<noteq> ''..'' \<and> CHR ''/'' \<notin> set seg)"

chapter \<open>Properties\<close>

section \<open>Rate limiter: windowing\<close>

lemma in_window_all:
  "\<forall>t\<in>set ts. now - t < w \<Longrightarrow> in_window now w ts = ts"
  by (simp add: in_window_def)

lemma in_window_none:
  "\<forall>t\<in>set ts. w \<le> now - t \<Longrightarrow> in_window now w ts = []"
  by (induction ts) (auto simp: in_window_def)

lemma checkRateLimit_allowed_step:
  assumes "in_window now w (stored_timestamps store key) = ts" "int (length ts) < m"
  shows "checkRateLimit store now key m w =
           (\<lparr>allowed = True, retryAfterMs = Num 0, remaining = m - int (length ts) - 1\<rparr>,
            store(key \<mapsto> ts @ [now]))"
  using assms by (simp add: checkRateLimit_def Let_def)

lemma calls_within_window:
  assumes "store key = Some pre" "pre \<noteq> []" "sorted (pre @ nows)"
    and "\<forall>t\<in>set nows. t - hd pre < w"
    and "int (length (pre @ nows)) \<le> m"
  shows "list_all allowed (fst (checkRateLimit_calls store key m w nows))
         \<and> snd (checkRateLimit_calls store key m w nows) = store(key \<mapsto> pre @ nows)"
  using assms
proof (induction nows arbitrary: store pre)
  case Nil
  then show ?case by (simp add: fun_upd_idem)
next
  case (Cons now nows)
  have hd_le: "\<forall>u\<in>set pre. hd pre \<le> u"
    using Cons.prems(2,3) by (cases pre) (auto simp: sorted_append)
  have "\<forall>u\<in>set pre. now - u < w"
  proof
    fix u assume "u \<in> set pre"
    with hd_le have "hd pre \<le> u" by simp
    moreover have "now - hd pre < w" using Cons.prems(4) by simp
    ultimately show "now - u < w" by simp
  qed
  then have win: "in_window now w (stored_timestamps store key) = pre"
    using Cons.prems(1) by (simp add: stored_timestamps_def in_window_all)
  have len: "int (length pre) < m" using Cons.prems(5) by simp
  let ?store' = "store(key \<mapsto> pre @ [now])"
  have step: "checkRateLimit store now key m w =
      (\<lparr>allowed = True, retryAfterMs = Num 0, remaining = m - int (length pre) - 1\<rparr>, ?store')"
    by (rule checkRateLimit_allowed_step [OF win len])
  have hd_eq: "hd (pre @ [now]) = hd pre" using Cons.prems(2) by simp
  have IH: "list_all allowed (fst (checkRateLimit_calls ?store' key m w nows))
         \<and> snd (checkRateLimit_calls ?store' key m w nows) = ?store'(key \<mapsto> (pre @ [now]) @ nows)"
  proof (rule Cons.IH)
    show "?store' key = Some (pre @ [now])" by simp
    show "pre @ [now] \<noteq> []" by simp
    show "sorted ((pre @ [now]) @ nows)" using Cons.prems(3) by simp
    show "\<forall>t\<in>set nows. t - hd (pre @ [now]) < w" using Cons.prems(4) hd_eq by simp
    show "int (length ((pre @ [now]) @ nows)) \<le> m" using Cons.prems(5) by simp
  qed
  show ?case using step IH by (simp add: split_beta)
qed


lemma sorted_le_last:
  "sorted (xs::int list) \<Longrightarrow> x \<in> set xs \<Longrightarrow> x \<le> last xs"
  by (induction xs) auto

lemma calls_from_expired:
  assumes "nows \<noteq> []" "sorted nows" "last nows - hd nows < w"
    and "int (length nows) \<le> m"
    and "\<forall>t\<in>set (stored_timestamps store key). w \<le> hd nows - t"
  shows "list_all allowed (fst (checkRateLimit_calls store key m w nows))
         \<and> snd (checkRateLimit_calls store key m w nows) = store(key \<mapsto> nows)"
proof -
  obtain now rest where nows: "nows = now # rest" using assms(1) by (cases nows) auto
  have win: "in_window now w (stored_timestamps store key) = []"
    using assms(5) nows by (simp add: in_window_none)
  have len: "int (length ([]::int list)) < m" using assms(4) nows by simp
  let ?store' = "store(key \<mapsto> [now])"
  have step: "checkRateLimit store now key m w =
      (\<lparr>allowed = True, retryAfterMs = Num 0, remaining = m - int (length ([]::int list)) - 1\<rparr>,
       store(key \<mapsto> [] @ [now]))"
    by (rule checkRateLimit_allowed_step [OF win len])
  have bound: "\<forall>t\<in>set rest. t - hd [now] < w"
  proof
    fix t assume t: "t \<in> set rest"
    then have "rest \<noteq> []" by auto
    then have "last nows = last rest" using nows by simp
    moreover have "t \<le> last rest"
      using t assms(2) nows by (simp add: sorted_le_last)
    ultimately show "t - hd [now] < w" using assms(3) nows by simp
  qed
  have rest: "list_all allowed (fst (checkRateLimit_calls ?store' key m w rest))
         \<and> snd (checkRateLimit_calls ?store' key m w rest) = ?store'(key \<mapsto> [now] @ rest)"
  proof (rule calls_within_window)
    show "?store' key = Some [now]" by simp
    show "[now] \<noteq> []" by simp
    show "sorted ([now] @ rest)" using assms(2) nows by simp
    show "\<forall>t\<in>set rest. t - hd [now] < w" by (rule bound)
    show "int (length ([now] @ rest)) \<le> m" using assms(4) nows by simp
  qed
  show ?thesis using step rest nows by (simp add: split_beta)
qed

lemma in_window_later:
  "now \<le> t \<Longrightarrow> in_window t w (in_window now w ts) = in_window t w ts"
  by (induction ts) (auto simp: in_window_def)

lemma map_all_true:
  "list_all P xs \<Longrightarrow> map P xs = replicate (length xs) True"
  by (induction xs) simp_all

lemma calls_append:
  "fst (checkRateLimit_calls store key m w (xs @ ys))
     = fst (checkRateLimit_calls store key m w xs)
       @ fst (checkRateLimit_calls (snd (checkRateLimit_calls store key m w xs)) key m w ys)"
  by (induction xs arbitrary: store) (simp_all add: split_beta)

lemma calls_windowing:
  assumes "nows \<noteq> []" and "int (length nows) = m" and "sorted (nows @ [t, t'])"
    and "last nows - hd nows < w"
    and "\<forall>old\<in>set (stored_timestamps store key). w \<le> hd nows - old"
    and "t - hd nows < w" and "w \<le> t' - last nows"
  shows "fst (checkRateLimit_calls store key m w (nows @ [t, t']))
           = fst (checkRateLimit_calls store key m w nows)
             @ [\<lparr>allowed = False, retryAfterMs = Num (hd nows + w - t), remaining = 0\<rparr>,
                \<lparr>allowed = True, retryAfterMs = Num 0, remaining = m - 1\<rparr>]
         \<and> list_all allowed (fst (checkRateLimit_calls store key m w nows))
         \<and> length (fst (checkRateLimit_calls store key m w nows)) = length nows"
proof -
  let ?run = "checkRateLimit_calls store key m w nows"
  let ?s1 = "store(key \<mapsto> nows)"
  from assms(3) have sorted: "sorted nows" and t: "\<forall>u\<in>set nows. u \<le> t" and tt': "t \<le> t'"
    by (auto simp: sorted_append)
  have run: "list_all allowed (fst ?run) \<and> snd ?run = ?s1"
    using assms(1,2,4,5) sorted by (intro calls_from_expired) auto
  have le_last: "\<forall>u\<in>set nows. u \<le> last nows"
    using sorted by (simp add: sorted_le_last)
  have ge_hd: "\<forall>u\<in>set nows. hd nows \<le> u"
    using assms(1) sorted by (cases nows) auto
  have "\<forall>u\<in>set nows. t - u < w"
    using ge_hd assms(6) by fastforce
  then have win_t: "in_window t w nows = nows" by (rule in_window_all)
  obtain now rest where nows: "nows = now # rest" using assms(1) by (cases nows) auto
  have denied: "checkRateLimit ?s1 t key m w =
      (\<lparr>allowed = False, retryAfterMs = Num (hd nows + w - t), remaining = 0\<rparr>, ?s1)"
    using win_t assms(2) nows
    by (simp add: checkRateLimit_def stored_timestamps_def Let_def)
  have "\<forall>u\<in>set nows. w \<le> t' - u"
    using le_last assms(7) by fastforce
  then have win_t': "in_window t' w nows = []" by (rule in_window_none)
  have pos: "0 < m" using assms(1,2) by (cases nows) auto
  have again: "fst (checkRateLimit ?s1 t' key m w)
      = \<lparr>allowed = True, retryAfterMs = Num 0, remaining = m - 1\<rparr>"
    using win_t' pos by (simp add: checkRateLimit_def stored_timestamps_def Let_def)
  have len: "length (fst (checkRateLimit_calls s key m w xs)) = length xs" for s xs
    by (induction xs arbitrary: s) (simp_all add: split_beta)
  show ?thesis
    using run denied again len by (simp add: calls_append split_beta)
qed

subsection \<open>The cleanup timer\<close>

lemma stored_cleanup_tick:
  "stored_timestamps (cleanup_tick store tick) key
     = filter (\<lambda>t. tick - t < 15 * 60 * 1000) (stored_timestamps store key)"
  by (simp add: cleanup_tick_def stored_timestamps_def Let_def split: option.splits)

lemma cleanup_tick_unobservable:
  assumes "w \<le> 15 * 60 * 1000" and "tick \<le> now"
  shows "in_window now w (stored_timestamps (cleanup_tick store tick) key)
           = in_window now w (stored_timestamps store key)"
proof -
  have "filter (\<lambda>t. now - t < w) (filter (\<lambda>t. tick - t < 15 * 60 * 1000) ts)
      = filter (\<lambda>t. now - t < w) ts" for ts
    using assms by (induction ts) auto
  then show ?thesis
    by (simp add: stored_cleanup_tick in_window_def)
qed

lemma checkRateLimit_reads_window:
  assumes "in_window now w (stored_timestamps store key)
             = in_window now w (stored_timestamps store' key)"
  shows "fst (checkRateLimit store now key m w) = fst (checkRateLimit store' now key m w)"
    and "stored_timestamps (snd (checkRateLimit store now key m w)) key
           = stored_timestamps (snd (checkRateLimit store' now key m w)) key"
  using assms by (simp_all add: checkRateLimit_def Let_def stored_timestamps_def)

lemma sorted_call_times:
  "sorted (map event_time events) \<Longrightarrow> sorted (call_times events)"
proof (induction events rule: call_times.induct)
  case 1
  then show ?case by simp
next
  case (2 now events)
  have "set (call_times events) \<subseteq> set (map event_time events)"
    by (induction events rule: call_times.induct) auto
  with 2 show ?case by auto
next
  case (3 now events)
  then show ?case by simp
qed

lemma run_ignores_ticks:
  assumes "w \<le> 15 * 60 * 1000" and "sorted (map event_time events)"
    and "\<forall>e\<in>set events. since \<le> event_time e"
    and "\<forall>now\<ge>since. in_window now w (stored_timestamps store key)
                        = in_window now w (stored_timestamps store' key)"
  shows "fst (rate_limiter_run store key m w events)
           = fst (checkRateLimit_calls store' key m w (call_times events))"
  using assms(2,3,4)
proof (induction events arbitrary: store store' since)
  case Nil
  then show ?case by simp
next
  case (Cons e events)
  have later: "\<forall>e'\<in>set events. event_time e \<le> event_time e'"
    using Cons.prems(1) by auto
  have sorted: "sorted (map event_time events)"
    using Cons.prems(1) by simp
  have since: "since \<le> event_time e"
    using Cons.prems(2) by simp
  show ?case
  proof (cases e)
    case (Call now)
    with since Cons.prems(3)
    have same: "in_window now w (stored_timestamps store key)
        = in_window now w (stored_timestamps store' key)"
      by simp
    let ?s = "snd (checkRateLimit store now key m w)"
    let ?s' = "snd (checkRateLimit store' now key m w)"
    note step = checkRateLimit_reads_window [OF same, of m]
    have "fst (rate_limiter_run ?s key m w events)
        = fst (checkRateLimit_calls ?s' key m w (call_times events))"
      using sorted later
    proof (rule Cons.IH)
      show "\<forall>t\<ge>event_time e. in_window t w (stored_timestamps ?s key)
          = in_window t w (stored_timestamps ?s' key)"
        using step(2) by simp
    qed
    with Call step(1) show ?thesis by (simp add: split_beta)
  next
    case (Tick tick)
    have "fst (rate_limiter_run (cleanup_tick store tick) key m w events)
        = fst (checkRateLimit_calls store' key m w (call_times events))"
      using sorted later
    proof (rule Cons.IH)
      show "\<forall>t\<ge>event_time e. in_window t w (stored_timestamps (cleanup_tick store tick) key)
          = in_window t w (stored_timestamps store' key)"
      proof (intro allI impI)
        fix t assume t: "event_time e \<le> t"
        with Tick have "tick \<le> t" by simp
        with assms(1) have "in_window t w (stored_timestamps (cleanup_tick store tick) key)
            = in_window t w (stored_timestamps store key)"
          by (rule cleanup_tick_unobservable)
        also from t since Cons.prems(3) have "\<dots> = in_window t w (stored_timestamps store' key)"
          by simp
        finally show "in_window t w (stored_timestamps (cleanup_tick store tick) key)
            = in_window t w (stored_timestamps store' key)" .
      qed
    qed
    with Tick show ?thesis by simp
  qed
qed

text \<open>
  Claim C5 says this for every window. The cleanup timer of the module keeps fifteen
  minutes of timestamps whatever the window is, so with a window of twenty minutes and a
  limit of one request, a first call at 1000 ms and the ticks of the timer at 5, 10, 15
  and 20 minutes, a second call at 1200500 ms is allowed although the first call is still
  in the window.
\<close>

theorem cleanup_reopens_a_long_window:
  "map allowed (fst (rate_limiter_run Map.empty ''login:10.0.0.7'' 1 1200000
      [Call 1000, Tick 300000, Tick 600000, Tick 900000, Tick 1200000, Call 1200500]))
     = [True, True]
   \<and> (1200500::int) - 1000 < 1200000"
  by (simp add: checkRateLimit_def cleanup_tick_def stored_timestamps_def in_window_def)

text \<open>
  Claim C5, amended. For a window of at most fifteen minutes and clock readings of
  magnitude at most \<open>2^52\<close>, in any run in which the timer may tick at any moment: starting from a key
  whose recorded requests have all left the window, \<open>maxRequests\<close> calls that fall within
  one window are all allowed; the next call, made while the first of them is still in the
  window, is denied with \<open>retryAfterMs = oldest + windowMs - now\<close>, which is positive;
  and the call after that, made once the window has elapsed since the last recorded
  request, is allowed.
\<close>

theorem rate_limit_windowing:
  assumes "windowMs \<le> 15 * 60 * 1000"
    and "sorted (map event_time events)"
    and "call_times events = nows @ [t, t']"
    and "nows \<noteq> []" and "int (length nows) = maxRequests"
    and "last nows - hd nows < windowMs"
    and "\<forall>old\<in>set (stored_timestamps store key). windowMs \<le> hd nows - old"
    and "t - hd nows < windowMs" and "windowMs \<le> t' - last nows"
    and "list_all clock_reading (map event_time events)"
    and "list_all clock_reading (stored_timestamps store key)"
  shows "(let answers = fst (rate_limiter_run store key maxRequests windowMs events)
          in map allowed answers = replicate (length nows) True @ [False, True]
             \<and> retryAfterMs (answers ! length nows) = Num (hd nows + windowMs - t)
             \<and> 0 < hd nows + windowMs - t)"
proof -
  let ?calls = "checkRateLimit_calls store key maxRequests windowMs"
  have sorted: "sorted (nows @ [t, t'])"
    using sorted_call_times [OF assms(2)] assms(3) by simp
  obtain since where since: "\<forall>e\<in>set events. since \<le> event_time e"
  proof (cases events)
    case Nil
    then show ?thesis using that by simp
  next
    case (Cons e rest)
    with assms(2) have "\<forall>e'\<in>set events. event_time e \<le> event_time e'" by auto
    then show ?thesis using that by blast
  qed
  have "fst (rate_limiter_run store key maxRequests windowMs events)
      = fst (?calls (call_times events))"
    using assms(1,2) since by (rule run_ignores_ticks) simp
  then have run: "fst (rate_limiter_run store key maxRequests windowMs events)
      = fst (?calls (nows @ [t, t']))"
    using assms(3) by simp
  from calls_windowing [OF assms(4,5) sorted assms(6,7,8,9)]
  have shape: "fst (?calls (nows @ [t, t']))
           = fst (?calls nows)
             @ [\<lparr>allowed = False, retryAfterMs = Num (hd nows + windowMs - t), remaining = 0\<rparr>,
                \<lparr>allowed = True, retryAfterMs = Num 0, remaining = maxRequests - 1\<rparr>]"
    and all: "list_all allowed (fst (?calls nows))"
    and len: "length (fst (?calls nows)) = length nows"
    by simp_all
  from map_all_true [OF all] len
  have "map allowed (fst (?calls nows)) = replicate (length nows) True"
    by simp
  moreover from len have "(fst (?calls nows)
             @ [\<lparr>allowed = False, retryAfterMs = Num (hd nows + windowMs - t), remaining = 0\<rparr>,
                \<lparr>allowed = True, retryAfterMs = Num 0, remaining = maxRequests - 1\<rparr>]) ! length nows
      = \<lparr>allowed = False, retryAfterMs = Num (hd nows + windowMs - t), remaining = 0\<rparr>"
    by (simp add: nth_append)
  ultimately show ?thesis
    using run shape assms(8) by (simp add: Let_def)
qed

theorem rate_limit_windowing_witness:
  "(60000::int) \<le> 15 * 60 * 1000
   \<and> sorted (map event_time
        [Tick 1000, Call 2000, Call 3000, Call 4000, Tick 301000, Call 305000, Tick 601000,
         Call 700000])
   \<and> call_times
        [Tick 1000, Call 2000, Call 3000, Call 4000, Tick 301000, Call 305000, Tick 601000,
         Call 700000]
       = [2000, 3000, 4000] @ [305000, 700000]
   \<and> stored_timestamps (Map.empty(''api:10.0.0.7'' \<mapsto> [- 400000])) ''api:10.0.0.7'' = [- 400000]
   \<and> (400000::int) \<le> hd [2000, 3000, 4000] - (- 400000)
   \<and> clock_reading (- 400000) \<and> clock_reading 700000
   \<and> map allowed (fst (rate_limiter_run (Map.empty(''api:10.0.0.7'' \<mapsto> [- 400000]))
        ''api:10.0.0.7'' 3 400000
        [Tick 1000, Call 2000, Call 3000, Call 4000, Tick 301000, Call 305000, Tick 601000,
         Call 700000]))
       = [True, True, True, False, True]
   \<and> retryAfterMs (fst (rate_limiter_run (Map.empty(''api:10.0.0.7'' \<mapsto> [- 400000]))
        ''api:10.0.0.7'' 3 400000
        [Tick 1000, Call 2000, Call 3000, Call 4000, Tick 301000, Call 305000, Tick 601000,
         Call 700000]) ! 3)
       = Num 97000"
  using rate_limit_windowing
    [of 400000
        "[Tick 1000, Call 2000, Call 3000, Call 4000, Tick 301000, Call 305000, Tick 601000,
          Call 700000]"
        "[2000, 3000, 4000]" 305000 700000 3
        "Map.empty(''api:10.0.0.7'' \<mapsto> [- 400000])" "''api:10.0.0.7''"]
  by (simp add: stored_timestamps_def clock_reading_def checkRateLimit_def cleanup_tick_def
      in_window_def Let_def)

text \<open>
  Claim C10. A call that returns \<open>allowed = false\<close> records nothing: the list stored for
  the key afterwards is the in-window part of the list stored before, every other key is
  untouched, and every later call gets the answer it would have got had the denied call
  never been made, so retrying at capacity does not postpone the next allowed request.
\<close>

theorem denied_call_records_nothing:
  assumes "\<not> allowed (fst (checkRateLimit store now key maxRequests windowMs))"
  shows "snd (checkRateLimit store now key maxRequests windowMs)
           = store(key \<mapsto> in_window now windowMs (stored_timestamps store key))
         \<and> (\<forall>t\<ge>now. fst (checkRateLimit (snd (checkRateLimit store now key maxRequests windowMs))
                             t key maxRequests windowMs)
                     = fst (checkRateLimit store t key maxRequests windowMs))"
proof -
  let ?ts = "in_window now windowMs (stored_timestamps store key)"
  have full: "maxRequests \<le> int (length ?ts)"
    using assms by (auto simp: checkRateLimit_def Let_def split: if_splits)
  then have s': "snd (checkRateLimit store now key maxRequests windowMs) = store(key \<mapsto> ?ts)"
    by (simp add: checkRateLimit_def Let_def)
  have "fst (checkRateLimit (store(key \<mapsto> ?ts)) t key maxRequests windowMs)
          = fst (checkRateLimit store t key maxRequests windowMs)" if "now \<le> t" for t
    using that by (simp add: checkRateLimit_def stored_timestamps_def Let_def in_window_later)
  with s' show ?thesis by simp
qed


theorem denied_call_records_nothing_witness:
  "\<not> allowed (fst (checkRateLimit (Map.empty(''api:h'' \<mapsto> [10, 20])) 25 ''api:h'' 2 100))
   \<and> snd (checkRateLimit (Map.empty(''api:h'' \<mapsto> [10, 20])) 25 ''api:h'' 2 100)
       = (Map.empty(''api:h'' \<mapsto> [10, 20]))(''api:h'' \<mapsto>
             in_window 25 100 (stored_timestamps (Map.empty(''api:h'' \<mapsto> [10, 20])) ''api:h''))
   \<and> (25::int) \<le> 115
   \<and> fst (checkRateLimit (snd (checkRateLimit (Map.empty(''api:h'' \<mapsto> [10, 20])) 25 ''api:h'' 2 100))
             115 ''api:h'' 2 100)
       = fst (checkRateLimit (Map.empty(''api:h'' \<mapsto> [10, 20])) 115 ''api:h'' 2 100)"
  using denied_call_records_nothing [of "Map.empty(''api:h'' \<mapsto> [10, 20])" 25 "''api:h''" 2 100]
  by (simp add: checkRateLimit_def stored_timestamps_def in_window_def)

section \<open>CSRF double-submit check\<close>

lemma validateCsrf_iff:
  "validateCsrf cookieValue headerValue \<longleftrightarrow>
     (\<exists>c h. cookieValue = Some c \<and> headerValue = Some h \<and> length c = 64 \<and> length h = 64
            \<and> Buffer_from_hex c = Buffer_from_hex h)"
  by (auto simp: validateCsrf_def timingSafeEqual_def split: option.splits)

lemma validateCsrf_missing: "\<not> validateCsrf None h" "\<not> validateCsrf c None"
  by (simp_all add: validateCsrf_def split: option.splits)

lemma validateCsrf_wrong_length:
  "length c \<noteq> 64 \<or> length h \<noteq> 64 \<Longrightarrow> \<not> validateCsrf (Some c) (Some h)"
  by (auto simp: validateCsrf_iff)

lemma validateCsrf_same_token:
  "length c = 64 \<Longrightarrow> validateCsrf (Some c) (Some c)"
  by (simp add: validateCsrf_iff)

text \<open>
  Claim C3 says that a pair with a non-hexadecimal or mismatched value is rejected. The
  function checks the lengths only and then compares what the hexadecimal decoder
  returns, and the decoder stops silently at the first character it cannot read. Two
  different 64-character strings without a single hexadecimal digit both decode to the
  empty buffer, and the comparison of two empty buffers succeeds.
\<close>

theorem validateCsrf_accepts_mismatched_non_hex:
  "validateCsrf (Some (replicate 64 (CHR ''z''))) (Some (replicate 64 (CHR ''y''))) = True
   \<and> replicate 64 (CHR ''z'') \<noteq> replicate 64 (CHR ''y'')
   \<and> is_hex_string (replicate 64 (CHR ''z'')) = False"
proof -
  have z: "Buffer_from_hex (replicate 64 (CHR ''z'')) = []"
    by (simp add: numeral_eq_Suc unhex_def)
  have y: "Buffer_from_hex (replicate 64 (CHR ''y'')) = []"
    by (simp add: numeral_eq_Suc unhex_def)
  have neq: "replicate 64 (CHR ''z'') \<noteq> replicate 64 (CHR ''y'')"
    by (simp add: numeral_eq_Suc)
  have "unhex (CHR ''z'') = None"
    by (simp add: unhex_def)
  then have nothex: "is_hex_string (replicate 64 (CHR ''z'')) = False"
    by (simp add: is_hex_string_def list_all_iff)
  show ?thesis
    using z y neq nothex by (simp add: validateCsrf_iff)
qed

section \<open>Command builder: what reaches the command text\<close>

lemma USERNAME_REGEX_chars:
  assumes "USERNAME_REGEX s" and "c \<in> set s"
  shows "is_lower c \<or> is_digit c \<or> c = CHR ''_'' \<or> c = CHR ''-''"
  using assms by (cases s) (auto simp: USERNAME_REGEX_def list_all_iff)

lemma USERNAME_REGEX_no_metacharacter:
  assumes "USERNAME_REGEX s"
  shows "set s \<inter> shell_metacharacters = {}"
proof -
  have "c \<notin> shell_metacharacters" if "c \<in> set s" for c
    using USERNAME_REGEX_chars [OF assms that]
    by (auto simp: shell_metacharacters_def is_lower_def is_digit_def)
  then show ?thesis by auto
qed

lemma SAFE_PATH_REGEX_no_metacharacter:
  assumes "SAFE_PATH_REGEX s"
  shows "set s \<inter> shell_metacharacters = {}"
proof -
  have "c \<notin> shell_metacharacters" if "c \<in> set s" for c
  proof -
    from assms that have "safe_path_char c"
      by (simp add: SAFE_PATH_REGEX_def list_all_iff)
    then show ?thesis
      by (auto simp: safe_path_char_def shell_metacharacters_def is_lower_def is_upper_def
          is_digit_def)
  qed
  then show ?thesis by auto
qed

text \<open>
  The sibling constructors do validate: a user name or a path that reaches the command
  text holds no shell metacharacter.
\<close>

lemma deleteSambaUser_validated:
  assumes "deleteSambaUser username = Inr spec"
  shows "command spec = ''smbpasswd -x '' @ username \<and> set username \<inter> shell_metacharacters = {}"
  using assms USERNAME_REGEX_no_metacharacter [of username]
  by (auto simp: deleteSambaUser_def after_def validateUsername_def split: if_splits)

lemma removeFile_validated:
  assumes "removeFile safePath = Inr spec"
  shows "command spec = ''rm '' @ safePath \<and> set safePath \<inter> shell_metacharacters = {}"
  using assms SAFE_PATH_REGEX_no_metacharacter [of safePath]
  by (auto simp: removeFile_def after_def validatePath_def split: if_splits)

lemma addSambaUser_password_only_on_stdin:
  assumes "addSambaUser username password = Inr spec"
  shows "command spec = ''smbpasswd -a -s '' @ username
         \<and> stdin spec = Some (password @ [CHR 0x0A] @ password @ [CHR 0x0A])
         \<and> set username \<inter> shell_metacharacters = {}"
  using assms USERNAME_REGEX_no_metacharacter [of username]
  by (auto simp: addSambaUser_def after_def validateUsername_def validatePassword_def
      split: if_splits)

lemma escape_double_quotes_keeps:
  "CHR 0x22 \<notin> set s \<Longrightarrow> escape_double_quotes s = s"
  by (induction s) (auto simp: escape_double_quotes_def)

lemma addAuthorizedKey_unvalidated:
  \<open>CHR 0x22 \<notin> set key \<Longrightarrow>
     command (addAuthorizedKey key)
       = ''echo "'' @ key @ ''" >> ~/.ssh/authorized_keys && chmod 600 ~/.ssh/authorized_keys''\<close>
  by (simp add: addAuthorizedKey_def escape_double_quotes_keeps)

text \<open>
  Claim C1 says that no constructor puts an unvalidated piece of operator input into the
  command text. \<open>addAuthorizedKey\<close> and \<open>removeAuthorizedKey\<close> call no validator and
  cannot reject: they copy their argument into a double-quoted shell word, escaping the
  double quote only, and leave the payload field empty. A command substitution in the
  argument therefore arrives in the command text unchanged.
\<close>

theorem authorized_key_constructors_interpolate_raw_input:
  \<open>removeAuthorizedKey ''$(reboot)''
     = \<lparr>command = ''grep -v "$(reboot)" ~/.ssh/authorized_keys > ~/.ssh/authorized_keys.tmp 2>/dev/null; mv ~/.ssh/authorized_keys.tmp ~/.ssh/authorized_keys || rm -f ~/.ssh/authorized_keys.tmp'',
        stdin = None, sudo = False\<rparr>
   \<and> addAuthorizedKey ''ssh-ed25519 AAAAC3NzaC1lZDI1NTE5 $(reboot)''
     = \<lparr>command = ''echo "ssh-ed25519 AAAAC3NzaC1lZDI1NTE5 $(reboot)" >> ~/.ssh/authorized_keys && chmod 600 ~/.ssh/authorized_keys'',
        stdin = None, sudo = False\<rparr>
   \<and> CHR ''$'' \<in> shell_metacharacters\<close>
  by (simp add: removeAuthorizedKey_def addAuthorizedKey_def escape_double_quotes_def
      shell_metacharacters_def)

section \<open>Command execution: order of the writes\<close>

text \<open>
  Claim C8. For a command that runs under \<open>sudo\<close>: nothing is written unless the stream
  was opened; when it was, the first operation on the input channel is the write of the
  password line, the payload (when the specification has a non-empty one) is the second,
  and the channel is ended once, as the last operation.
\<close>

theorem sudo_password_written_before_payload:
  assumes "sudo spec"
  shows "(let ops = channel (executeCommand creds spec tr)
          in (ops = [] \<longleftrightarrow> \<not> stream_opened tr)
             \<and> (stream_opened tr \<longrightarrow>
                  hd ops = Write (ssh_password creds @ [CHR 0x0A])
                  \<and> last ops = End \<and> count_list ops End = 1
                  \<and> (\<forall>payload. stdin spec = Some payload \<and> payload \<noteq> [] \<longrightarrow>
                        ops = [Write (ssh_password creds @ [CHR 0x0A]), Write payload, End])
                  \<and> (stdin spec = None \<or> stdin spec = Some [] \<longrightarrow>
                        ops = [Write (ssh_password creds @ [CHR 0x0A]), End])))"
  using assms
  by (cases tr)
     (auto simp: executeCommand_def stream_opened_def write_stdin_def Let_def
        split: option.splits)

theorem sudo_password_written_before_payload_witness:
  "sudo \<lparr>command = ''smbpasswd -a -s alice'', stdin = Some ''pw12345678'', sudo = True\<rparr>
   \<and> stream_opened (StreamCloses [] [] (Some 0))
   \<and> channel (executeCommand
        \<lparr>ssh_host = ''nas'', ssh_port = 22, ssh_username = ''admin'', ssh_password = ''hunter2''\<rparr>
        \<lparr>command = ''smbpasswd -a -s alice'', stdin = Some ''pw12345678'', sudo = True\<rparr>
        (StreamCloses [] [] (Some 0)))
     = [Write (''hunter2'' @ [CHR 0x0A]), Write ''pw12345678'', End]"
  using sudo_password_written_before_payload
    [of "\<lparr>command = ''smbpasswd -a -s alice'', stdin = Some ''pw12345678'', sudo = True\<rparr>"
        "\<lparr>ssh_host = ''nas'', ssh_port = 22, ssh_username = ''admin'', ssh_password = ''hunter2''\<rparr>"
        "StreamCloses [] [] (Some 0)"]
  by (simp add: stream_opened_def Let_def)

section \<open>Configuration editor: rollback and reload\<close>


subsection \<open>The commands of the handler on the host\<close>

lemma sudo_accepts_update [simp]:
  "sudo_accepts (host\<lparr>files := fs\<rparr>) creds = sudo_accepts host creds"
  "sudo_accepts (host\<lparr>reloads := n\<rparr>) creds = sudo_accepts host creds"
  by (simp_all add: sudo_accepts_def)







subsection \<open>The steps of the handler\<close>








section \<open>Session vault: round trip, expiry and the session cap\<close>

subsection \<open>Hexadecimal text\<close>




lemma length_hex_bytes:
  "length (hex_bytes bs) = 2 * length bs"
  by (induction bs) (simp_all add: hex_bytes_def kHexBytes_def)

subsection \<open>UTF-8\<close>
























subsection \<open>The map of sessions\<close>

lemma length_alist_update:
  "length (AList.update k v al) = (if k \<in> fst ` set al then length al else Suc (length al))"
  by (induction al) auto

lemma length_alist_delete:
  "distinct (map fst al) \<Longrightarrow> k \<in> fst ` set al \<Longrightarrow> Suc (length (AList.delete k al)) = length al"
proof (induction al)
  case Nil
  then show ?case by simp
next
  case (Cons p al)
  show ?case
  proof (cases "fst p = k")
    case True
    with Cons.prems have "k \<notin> fst ` set al" by auto
    then have "AList.delete k al = al"
      by (induction al) auto
    with True show ?thesis by (cases p) (simp add: AList.delete_eq)
  next
    case False
    with Cons show ?thesis by (auto simp: AList.delete_eq)
  qed
qed

lemma oldest_session_spec:
  "oldest_session al sid0 t0 = (r, tr) \<Longrightarrow>
     ((r, tr) = (sid0, t0) \<or> (\<exists>v. (r, v) \<in> set al \<and> tr = Some (lastAccessedAt v)))
     \<and> (\<forall>a. t0 = Some a \<longrightarrow> (\<exists>b. tr = Some b \<and> b \<le> a))
     \<and> (\<forall>(k, w)\<in>set al. \<exists>b. tr = Some b \<and> b \<le> lastAccessedAt w)"
proof (induction al arbitrary: sid0 t0)
  case Nil
  then show ?case by auto
next
  case (Cons p al)
  obtain sid session where p: "p = (sid, session)" by (cases p)
  show ?case
  proof (cases "case t0 of None \<Rightarrow> True | Some t \<Rightarrow> lastAccessedAt session < t")
    case True
    with Cons.prems p have rec: "oldest_session al sid (Some (lastAccessedAt session)) = (r, tr)"
      by simp
    from Cons.IH [OF rec] True p show ?thesis
      by (auto split: option.splits)
  next
    case False
    with Cons.prems p have rec: "oldest_session al sid0 t0 = (r, tr)"
      by simp
    from Cons.IH [OF rec] False p show ?thesis
      by (auto split: option.splits)
  qed
qed

lemma oldest_session_nonempty:
  assumes "sessions \<noteq> []"
  obtains victim v where "fst (oldest_session sessions [] None) = victim"
    and "(victim, v) \<in> set sessions" and "least_recently_accessed sessions v"
proof -
  obtain r tr where res: "oldest_session sessions [] None = (r, tr)"
    by (cases "oldest_session sessions [] None")
  note spec = oldest_session_spec [OF res]
  from assms obtain k w where kw: "(k, w) \<in> set sessions" by (cases sessions) auto
  with spec obtain b where b: "tr = Some b" by blast
  with spec obtain v where v: "(r, v) \<in> set sessions" "tr = Some (lastAccessedAt v)" by auto
  have "least_recently_accessed sessions v"
    unfolding least_recently_accessed_def list_all_iff
    using spec v(2) by auto
  with res v(1) that show thesis by simp
qed

lemma enforce_max_sessions_at_cap:
  assumes "distinct (map fst sessions)" and "[] \<notin> fst ` set sessions"
    and "MAX_SESSIONS env \<le> int (length sessions)" and "sessions \<noteq> []"
  obtains victim v where "map_of sessions victim = Some v"
    and "least_recently_accessed sessions v"
    and "enforce_max_sessions env sessions = AList.delete victim sessions"
    and "Suc (length (enforce_max_sessions env sessions)) = length sessions"
proof -
  from assms(4) obtain victim v where victim: "fst (oldest_session sessions [] None) = victim"
    and mem: "(victim, v) \<in> set sessions" and lra: "least_recently_accessed sessions v"
    by (rule oldest_session_nonempty)
  from mem assms(2) have "victim \<noteq> []" by force
  with victim assms(3) have del: "enforce_max_sessions env sessions = AList.delete victim sessions"
    by (simp add: enforce_max_sessions_def)
  from mem have "victim \<in> fst ` set sessions" by force
  with assms(1) have "Suc (length (AList.delete victim sessions)) = length sessions"
    by (rule length_alist_delete)
  moreover from assms(1) mem have "map_of sessions victim = Some v" by simp
  ultimately show thesis using that lra del by simp
qed

lemma enforce_max_sessions_inv:
  assumes "vault_inv env sessions" and "1 \<le> MAX_SESSIONS env"
  shows "distinct (map fst (enforce_max_sessions env sessions))"
    and "int (length (enforce_max_sessions env sessions)) < MAX_SESSIONS env"
    and "[] \<notin> fst ` set (enforce_max_sessions env sessions)"
proof -
  from assms(1) have d: "distinct (map fst sessions)" and e: "[] \<notin> fst ` set sessions"
    and le: "int (length sessions) \<le> MAX_SESSIONS env"
    by (simp_all add: vault_inv_def)
  show "distinct (map fst (enforce_max_sessions env sessions))"
    using d by (simp add: enforce_max_sessions_def Let_def AList.distinct_delete)
  show "[] \<notin> fst ` set (enforce_max_sessions env sessions)"
    using e by (auto simp: enforce_max_sessions_def Let_def AList.delete_eq)
  show "int (length (enforce_max_sessions env sessions)) < MAX_SESSIONS env"
  proof (cases "MAX_SESSIONS env \<le> int (length sessions)")
    case True
    with assms(2) have "sessions \<noteq> []" by auto
    with d e True obtain victim v
      where "Suc (length (enforce_max_sessions env sessions)) = length sessions"
      by (rule enforce_max_sessions_at_cap)
    with le show ?thesis by linarith
  next
    case False
    then show ?thesis by (simp add: enforce_max_sessions_def)
  qed
qed

lemma vault_inv_delete:
  assumes "vault_inv env sessions"
  shows "vault_inv env (AList.delete k sessions)"
proof -
  have "length (AList.delete k sessions) \<le> length sessions"
    by (rule AList.length_delete_le)
  moreover have "fst ` set (AList.delete k sessions) \<subseteq> fst ` set sessions"
    by (auto simp: AList.delete_eq)
  ultimately show ?thesis
    using assms by (auto simp: vault_inv_def AList.distinct_delete)
qed

lemma vault_inv_update_present:
  assumes "vault_inv env sessions" and "map_of sessions k = Some v"
  shows "vault_inv env (AList.update k v' sessions)"
proof -
  from assms(2) have "(k, v) \<in> set sessions" by (rule map_of_SomeD)
  then have k: "k \<in> fst ` set sessions" by force
  then show ?thesis
    using assms(1)
    by (auto simp: vault_inv_def length_alist_update AList.distinct_update AList.dom_update)
qed

lemma vault_inv_createSession:
  assumes "vault_inv env sessions" and "1 \<le> MAX_SESSIONS env" and "sid \<noteq> []"
  shows "vault_inv env (snd (createSession env sessions now sid iv username password host port))"
proof -
  let ?s1 = "enforce_max_sessions env sessions"
  note s1 = enforce_max_sessions_inv [OF assms(1,2)]
  show ?thesis
  proof (cases "encryptPassword env iv password")
    case None
    with s1 show ?thesis by (simp add: createSession_def vault_inv_def)
  next
    case (Some ct)
    obtain encrypted iv_hex tag where ct: "ct = (encrypted, iv_hex, tag)" by (cases ct)
    have "int (length (AList.update sid v ?s1)) \<le> MAX_SESSIONS env" for v
      using s1(2) by (simp add: length_alist_update)
    moreover have "[] \<notin> fst ` set (AList.update sid v ?s1)" for v
      using s1(3) assms(3) by (simp add: AList.dom_update)
    ultimately show ?thesis
      using Some ct s1(1) by (simp add: createSession_def vault_inv_def AList.distinct_update)
  qed
qed

lemma vault_inv_getSession:
  assumes "vault_inv env sessions"
  shows "vault_inv env (snd (getSession env sessions now now' sid))"
proof (cases "map_of sessions sid")
  case None
  with assms show ?thesis by (simp add: getSession_def)
next
  case (Some session)
  have upd: "vault_inv env (AList.update sid v' sessions)" for v'
    using assms Some by (rule vault_inv_update_present)
  show ?thesis
    using Some assms upd
    by (simp add: getSession_def Let_def vault_inv_delete split: option.splits)
qed

lemma vault_inv_cleanup:
  assumes "vault_inv env sessions"
  shows "vault_inv env (cleanup env sessions now)"
proof -
  have "length (cleanup env sessions now) \<le> length sessions"
    by (simp add: cleanup_def)
  moreover have "distinct (map fst (cleanup env sessions now))"
    using assms by (simp add: vault_inv_def cleanup_def distinct_map_filter)
  moreover have "[] \<notin> fst ` set (cleanup env sessions now)"
    using assms by (auto simp: vault_inv_def cleanup_def)
  ultimately show ?thesis
    using assms by (simp add: vault_inv_def)
qed

lemma vault_inv_step:
  assumes "vault_inv env sessions" and "1 \<le> MAX_SESSIONS env" and "fresh_sid_nonempty op"
  shows "vault_inv env (vault_step env sessions op)"
  using assms
  by (cases op)
     (simp_all add: vault_inv_createSession vault_inv_getSession vault_inv_cleanup
        vault_inv_delete destroySession_def)

lemma vault_inv_run:
  assumes "vault_inv env sessions" and "1 \<le> MAX_SESSIONS env" and "list_all fresh_sid_nonempty ops"
  shows "vault_inv env (vault_run env sessions ops)"
  using assms unfolding vault_run_def
  by (induction ops arbitrary: sessions) (simp_all add: vault_inv_step)

subsection \<open>The password through the cipher\<close>





text \<open>
  Claim C7. With a maximum of at least one session, after any sequence of create, get,
  destroy and sweep operations from the empty map the number of stored sessions is at most
  the maximum. When the map is at the maximum, \<open>createSession\<close> first deletes one stored
  session, none of the stored sessions was accessed earlier than that one, and then
  inserts the new record into the remaining map.
\<close>

theorem session_cap_invariant:
  assumes "1 \<le> MAX_SESSIONS env" and "list_all fresh_sid_nonempty ops"
  shows "(let sessions = vault_run env [] ops
          in int (length sessions) \<le> MAX_SESSIONS env
             \<and> (MAX_SESSIONS env \<le> int (length sessions) \<longrightarrow>
                  (\<exists>victim v.
                     map_of sessions victim = Some v
                     \<and> least_recently_accessed sessions v
                     \<and> enforce_max_sessions env sessions = AList.delete victim sessions
                     \<and> int (length (AList.delete victim sessions)) = MAX_SESSIONS env - 1
                     \<and> (\<forall>now sid iv username password host port encrypted iv_hex tag.
                          encryptPassword env iv password = Some (encrypted, iv_hex, tag) \<longrightarrow>
                          createSession env sessions now sid iv username password host port
                            = (Some sid,
                               AList.update sid
                                 \<lparr>session_username = username, encryptedPassword = encrypted,
                                  session_iv = iv_hex, authTag = tag, session_host = host,
                                  session_port = port, createdAt = now, lastAccessedAt = now\<rparr>
                                 (AList.delete victim sessions))))))"
proof -
  let ?sessions = "vault_run env [] ops"
  have "vault_inv env []" using assms(1) by (simp add: vault_inv_def)
  then have inv: "vault_inv env ?sessions"
    using assms by (rule vault_inv_run)
  then have le: "int (length ?sessions) \<le> MAX_SESSIONS env"
    and d: "distinct (map fst ?sessions)" and e: "[] \<notin> fst ` set ?sessions"
    by (simp_all add: vault_inv_def)
  have at_cap: "\<exists>victim v.
         map_of ?sessions victim = Some v
         \<and> least_recently_accessed ?sessions v
         \<and> enforce_max_sessions env ?sessions = AList.delete victim ?sessions
         \<and> int (length (AList.delete victim ?sessions)) = MAX_SESSIONS env - 1
         \<and> (\<forall>now sid iv username password host port encrypted iv_hex tag.
              encryptPassword env iv password = Some (encrypted, iv_hex, tag) \<longrightarrow>
              createSession env ?sessions now sid iv username password host port
                = (Some sid,
                   AList.update sid
                     \<lparr>session_username = username, encryptedPassword = encrypted,
                      session_iv = iv_hex, authTag = tag, session_host = host,
                      session_port = port, createdAt = now, lastAccessedAt = now\<rparr>
                     (AList.delete victim ?sessions)))"
    if full: "MAX_SESSIONS env \<le> int (length ?sessions)"
  proof -
    from full assms(1) have "?sessions \<noteq> []" by auto
    with d e full obtain victim v where v: "map_of ?sessions victim = Some v"
      and lra: "least_recently_accessed ?sessions v"
      and del: "enforce_max_sessions env ?sessions = AList.delete victim ?sessions"
      and len: "Suc (length (enforce_max_sessions env ?sessions)) = length ?sessions"
      by (rule enforce_max_sessions_at_cap)
    from len le full del have "int (length (AList.delete victim ?sessions)) = MAX_SESSIONS env - 1"
      by simp
    moreover have "createSession env ?sessions now sid iv username password host port
                = (Some sid,
                   AList.update sid
                     \<lparr>session_username = username, encryptedPassword = encrypted,
                      session_iv = iv_hex, authTag = tag, session_host = host,
                      session_port = port, createdAt = now, lastAccessedAt = now\<rparr>
                     (AList.delete victim ?sessions))"
      if "encryptPassword env iv password = Some (encrypted, iv_hex, tag)"
      for now sid iv username password host port encrypted iv_hex tag
      using that del by (simp add: createSession_def)
    ultimately show ?thesis using v lra del by blast
  qed
  show ?thesis
    unfolding Let_def using le at_cap by blast
qed

theorem session_cap_invariant_witness:
  "(1::int) \<le> MAX_SESSIONS (toy_vault 1800000 2)
   \<and> list_all fresh_sid_nonempty
        [Create 10 ''a1'' [0x00] ''ann'' [0x61] ''nas'' 22,
         Create 20 ''b2'' [0x01] ''bob'' [0x62] ''nas'' 22,
         Get 30 30 ''a1'',
         Create 40 ''c3'' [0x02] ''cyd'' [0x63] ''nas'' 22]
   \<and> map fst (vault_run (toy_vault 1800000 2) []
        [Create 10 ''a1'' [0x00] ''ann'' [0x61] ''nas'' 22,
         Create 20 ''b2'' [0x01] ''bob'' [0x62] ''nas'' 22,
         Get 30 30 ''a1'',
         Create 40 ''c3'' [0x02] ''cyd'' [0x63] ''nas'' 22])
      = [''a1'', ''c3'']
   \<and> int (length (vault_run (toy_vault 1800000 2) []
        [Create 10 ''a1'' [0x00] ''ann'' [0x61] ''nas'' 22,
         Create 20 ''b2'' [0x01] ''bob'' [0x62] ''nas'' 22,
         Get 30 30 ''a1'',
         Create 40 ''c3'' [0x02] ''cyd'' [0x63] ''nas'' 22]))
      \<le> MAX_SESSIONS (toy_vault 1800000 2)"
  using session_cap_invariant
    [of "toy_vault 1800000 2"
        "[Create 10 ''a1'' [0x00] ''ann'' [0x61] ''nas'' 22,
          Create 20 ''b2'' [0x01] ''bob'' [0x62] ''nas'' 22,
          Get 30 30 ''a1'',
          Create 40 ''c3'' [0x02] ''cyd'' [0x63] ''nas'' 22]"]
  by (simp add: vault_run_def createSession_def enforce_max_sessions_def getSession_def
      encryptPassword_def decryptPassword_def toy_vault_def utf8_encode_def high_surrogate_def
      low_surrogate_def utf8_bytes_def hex_bytes_def kHexBytes_def hex_digit_def
      bytes_from_hex_def unhex_def Let_def)

section \<open>Session identifiers: the size of the identifier space\<close>

lemma createSession_returns_its_identifier:
  "createSession env sessions now sid iv username password host port = (Some sid', sessions')
     \<Longrightarrow> sid' = sid"
  by (auto simp: createSession_def Let_def split: option.splits)

subsection \<open>Counting lists with a set for every position\<close>

lemma set_Cons_image: "set_Cons A XS = (\<lambda>(x, xs). x # xs) ` (A \<times> XS)"
  by (auto simp: set_Cons_def)

lemma card_set_Cons:
  "card (set_Cons A XS) = card A * card XS"
proof -
  have "inj_on (\<lambda>(x, xs). x # xs) (A \<times> XS)"
    by (auto simp: inj_on_def)
  then show ?thesis
    by (simp add: set_Cons_image card_image card_cartesian_product)
qed

lemma card_listset: "card (listset As) = prod_list (map card As)"
  by (induction As) (simp_all add: card_set_Cons)

subsection \<open>The two bytes with fixed bits\<close>

lemma low_nibble: "(b AND 0x0f :: byte) = take_bit 4 b"
  by (simp add: take_bit_eq_mask mask_eq_exp_minus_1)

lemma low_six_bits: "(b AND 0x3f :: byte) = take_bit 6 b"
  by (simp add: take_bit_eq_mask mask_eq_exp_minus_1)

lemma take_bit_and_exp:
  "m \<le> n \<Longrightarrow> take_bit m (b :: byte) AND 2 ^ n = 0"
  by (rule bit_eqI) (auto simp: bit_simps)

lemma unat_version_byte: "unat (version_byte b) = 64 + unat b mod 16"
proof -
  have disj: "take_bit 4 b AND (2 ^ 6 :: byte) = 0"
    by (rule take_bit_and_exp) simp
  have "version_byte b = take_bit 4 b + 2 ^ 6"
    using disjunctive_add_eq_or [OF disj] by (simp add: version_byte_def low_nibble)
  moreover have small: "unat (take_bit 4 b) = unat b mod 16"
    unfolding unsigned_take_bit_eq by (simp add: take_bit_eq_mod)
  moreover have "unat (take_bit 4 b + (2 ^ 6 :: byte)) = unat (take_bit 4 b) + unat (2 ^ 6 :: byte)"
    by (rule unat_add_lem [THEN iffD1]) (simp add: small)
  ultimately show ?thesis by simp
qed

lemma unat_variant_byte: "unat (variant_byte b) = 128 + unat b mod 64"
proof -
  have disj: "take_bit 6 b AND (2 ^ 7 :: byte) = 0"
    by (rule take_bit_and_exp) simp
  have "variant_byte b = take_bit 6 b + 2 ^ 7"
    using disjunctive_add_eq_or [OF disj] by (simp add: variant_byte_def low_six_bits)
  moreover have small: "unat (take_bit 6 b) = unat b mod 64"
    unfolding unsigned_take_bit_eq by (simp add: take_bit_eq_mod)
  moreover have "unat (take_bit 6 b + (2 ^ 7 :: byte)) = unat (take_bit 6 b) + unat (2 ^ 7 :: byte)"
    by (rule unat_add_lem [THEN iffD1]) (simp add: small)
  ultimately show ?thesis by simp
qed

lemma card_range_version_byte: "card (range version_byte) = 16"
proof -
  have "unat ` range version_byte = {64..<80}"
  proof (intro equalityI subsetI)
    fix n assume "n \<in> unat ` range version_byte"
    then show "n \<in> {64..<80}" by (auto simp: unat_version_byte)
  next
    fix n :: nat assume n: "n \<in> {64..<80}"
    define k where "k = n - 64"
    with n have k: "n = 64 + k" "k < 16" by auto
    then have "unat (word_of_nat k :: byte) = k"
      by (simp add: unat_of_nat)
    with k have "unat (version_byte (word_of_nat k)) = n"
      by (simp add: unat_version_byte)
    then have "n = unat (version_byte (word_of_nat k))" by simp
    then show "n \<in> unat ` range version_byte" by (rule image_eqI) simp
  qed
  moreover have "card (unat ` range version_byte) = card (range version_byte)"
    by (rule card_image) (auto intro!: inj_onI simp: word_unat_eq_iff)
  ultimately show ?thesis by simp
qed

lemma card_range_variant_byte: "card (range variant_byte) = 64"
proof -
  have "unat ` range variant_byte = {128..<192}"
  proof (intro equalityI subsetI)
    fix n assume "n \<in> unat ` range variant_byte"
    then show "n \<in> {128..<192}" by (auto simp: unat_variant_byte)
  next
    fix n :: nat assume n: "n \<in> {128..<192}"
    define k where "k = n - 128"
    with n have k: "n = 128 + k" "k < 64" by auto
    then have "unat (word_of_nat k :: byte) = k"
      by (simp add: unat_of_nat)
    with k have "unat (variant_byte (word_of_nat k)) = n"
      by (simp add: unat_variant_byte)
    then have "n = unat (variant_byte (word_of_nat k))" by simp
    then show "n \<in> unat ` range variant_byte" by (rule image_eqI) simp
  qed
  moreover have "card (unat ` range variant_byte) = card (range variant_byte)"
    by (rule card_image) (auto intro!: inj_onI simp: word_unat_eq_iff)
  ultimately show ?thesis by simp
qed

subsection \<open>The bytes of a version-4 UUID\<close>

lemma length_16_explicit:
  assumes "length (xs :: 'a list) = 16"
  obtains x0 x1 x2 x3 x4 x5 x6 x7 x8 x9 x10 x11 x12 x13 x14 x15
  where "xs = [x0, x1, x2, x3, x4, x5, x6, x7, x8, x9, x10, x11, x12, x13, x14, x15]"
proof -
  from assms have "length xs = Suc (Suc (Suc (Suc (Suc (Suc (Suc (Suc (Suc (Suc (Suc (Suc (Suc
      (Suc (Suc (Suc 0)))))))))))))))"
    by simp
  then show thesis
    using that by (auto simp: length_Suc_conv)
qed

lemma uuid_v4_bytes_explicit:
  "uuid_v4_bytes [x0, x1, x2, x3, x4, x5, x6, x7, x8, x9, x10, x11, x12, x13, x14, x15]
     = [x0, x1, x2, x3, x4, x5, version_byte x6, x7, variant_byte x8, x9, x10, x11, x12, x13,
        x14, x15]"
  by (simp add: uuid_v4_bytes_def)

lemma listset_uuid_positions_iff:
  "xs \<in> listset uuid_positions \<longleftrightarrow>
     (\<exists>x0 x1 x2 x3 x4 x5 b6 x7 b8 x9 x10 x11 x12 x13 x14 x15.
        xs = [x0, x1, x2, x3, x4, x5, version_byte b6, x7, variant_byte b8, x9, x10, x11, x12,
              x13, x14, x15])"
  unfolding uuid_positions_def listset.simps set_Cons_def
  by (auto simp: image_iff)

lemma uuid_v4_bytes_image: "uuid_v4_bytes ` random_draws = listset uuid_positions"
proof (intro equalityI subsetI)
  fix xs assume "xs \<in> uuid_v4_bytes ` random_draws"
  then obtain buf where buf: "length buf = 16" and xs: "xs = uuid_v4_bytes buf"
    by (auto simp: random_draws_def)
  from buf obtain x0 x1 x2 x3 x4 x5 x6 x7 x8 x9 x10 x11 x12 x13 x14 x15
    where "buf = [x0, x1, x2, x3, x4, x5, x6, x7, x8, x9, x10, x11, x12, x13, x14, x15]"
    by (rule length_16_explicit)
  with xs have "xs = [x0, x1, x2, x3, x4, x5, version_byte x6, x7, variant_byte x8, x9, x10,
      x11, x12, x13, x14, x15]"
    by (simp add: uuid_v4_bytes_explicit)
  then show "xs \<in> listset uuid_positions"
    unfolding listset_uuid_positions_iff by blast
next
  fix xs assume "xs \<in> listset uuid_positions"
  then obtain x0 x1 x2 x3 x4 x5 b6 x7 b8 x9 x10 x11 x12 x13 x14 x15
    where "xs = [x0, x1, x2, x3, x4, x5, version_byte b6, x7, variant_byte b8, x9, x10, x11,
                 x12, x13, x14, x15]"
    unfolding listset_uuid_positions_iff by blast
  then have "xs = uuid_v4_bytes [x0, x1, x2, x3, x4, x5, b6, x7, b8, x9, x10, x11, x12, x13,
      x14, x15]"
    by (simp add: uuid_v4_bytes_explicit)
  moreover have "[x0, x1, x2, x3, x4, x5, b6, x7, b8, x9, x10, x11, x12, x13, x14, x15]
      \<in> random_draws"
    by (simp add: random_draws_def)
  ultimately show "xs \<in> uuid_v4_bytes ` random_draws" by (rule image_eqI)
qed

lemma card_uuid_v4_bytes_image: "card (uuid_v4_bytes ` random_draws) = 2 ^ 122"
  by (simp only: uuid_v4_bytes_image card_listset)
     (simp add: uuid_positions_def card_word card_range_version_byte card_range_variant_byte)

lemma length_uuid_v4_bytes: "length (uuid_v4_bytes buf) = length buf"
  by (simp add: uuid_v4_bytes_def)

subsection \<open>The printed form determines the bytes\<close>

lemma hex_digit_inj:
  assumes "i < 16" and "j < 16" and "hex_digit i = hex_digit j"
  shows "i = j"
proof -
  have "distinct ''0123456789abcdef''" by simp
  moreover have "length ''0123456789abcdef'' = 16" by simp
  ultimately show ?thesis
    using assms nth_eq_iff_index_eq [of "''0123456789abcdef''" i j]
    by (simp add: hex_digit_def)
qed

lemma kHexBytes_inj:
  assumes "kHexBytes b = kHexBytes c"
  shows "b = c"
proof -
  have lt: "unat x div 16 < 16" "unat x mod 16 < 16" for x :: byte
    using unsigned_less [of x, where 'a = nat] by (simp_all add: less_mult_imp_div_less)
  from assms have "hex_digit (unat b div 16) = hex_digit (unat c div 16)"
    and "hex_digit (unat b mod 16) = hex_digit (unat c mod 16)"
    by (simp_all add: kHexBytes_def)
  then have "unat b div 16 = unat c div 16" and "unat b mod 16 = unat c mod 16"
    using lt by (auto intro: hex_digit_inj)
  then have "unat b = unat c"
    by (metis div_mult_mod_eq)
  then show ?thesis by (simp add: word_unat_eq_iff)
qed

lemma hex_bytes_inj: "hex_bytes bs = hex_bytes cs \<Longrightarrow> bs = cs"
proof (induction bs arbitrary: cs)
  case Nil
  have "hex_bytes [] = []" by (simp add: hex_bytes_def)
  with Nil have "length (hex_bytes cs) = 0" by simp
  then show ?case by (simp add: length_hex_bytes)
next
  case (Cons b bs)
  show ?case
  proof (cases cs)
    case Nil
    have "hex_bytes [] = []" by (simp add: hex_bytes_def)
    with Nil Cons.prems have "length (hex_bytes (b # bs)) = 0" by simp
    then show ?thesis by (simp add: length_hex_bytes)
  next
    case (Cons c cs')
    with Cons.prems have "kHexBytes b @ hex_bytes bs = kHexBytes c @ hex_bytes cs'"
      by (simp add: hex_bytes_def)
    then have "kHexBytes b = kHexBytes c" and "hex_bytes bs = hex_bytes cs'"
      by (simp_all add: kHexBytes_def)
    with Cons.IH Cons show ?thesis
      by (simp add: kHexBytes_inj)
  qed
qed

lemma serializeUUID_inj:
  assumes "length bs = 16" and "length cs = 16" and "serializeUUID bs = serializeUUID cs"
  shows "bs = cs"
proof -
  from assms have parts: "take 4 bs = take 4 cs" "take 2 (drop 4 bs) = take 2 (drop 4 cs)"
    "take 2 (drop 6 bs) = take 2 (drop 6 cs)" "take 2 (drop 8 bs) = take 2 (drop 8 cs)"
    "drop 10 bs = drop 10 cs"
    by (auto simp: serializeUUID_def append_eq_append_conv length_hex_bytes
        dest: hex_bytes_inj)
  have split: "xs = take 4 xs @ take 2 (drop 4 xs) @ take 2 (drop 6 xs) @ take 2 (drop 8 xs)
      @ drop 10 xs" for xs :: "byte list"
  proof -
    have "take 2 (drop 8 xs) @ drop 10 xs = drop 8 xs"
      using append_take_drop_id [of 2 "drop 8 xs"] by simp
    moreover have "take 2 (drop 6 xs) @ drop 8 xs = drop 6 xs"
      using append_take_drop_id [of 2 "drop 6 xs"] by simp
    moreover have "take 2 (drop 4 xs) @ drop 6 xs = drop 4 xs"
      using append_take_drop_id [of 2 "drop 4 xs"] by simp
    ultimately show ?thesis by simp
  qed
  show ?thesis
    using split [of bs] split [of cs] parts by simp
qed

lemma randomUUID_not_empty: "randomUUID buf \<noteq> []"
  by (simp add: randomUUID_def serializeUUID_def)

lemma card_randomUUID_image: "card (randomUUID ` random_draws) = 2 ^ 122"
proof -
  have "inj_on serializeUUID (uuid_v4_bytes ` random_draws)"
    by (rule inj_onI)
       (auto simp: random_draws_def length_uuid_v4_bytes intro!: serializeUUID_inj)
  then have "card (serializeUUID ` (uuid_v4_bytes ` random_draws))
      = card (uuid_v4_bytes ` random_draws)"
    by (rule card_image)
  moreover have "randomUUID ` random_draws = serializeUUID ` (uuid_v4_bytes ` random_draws)"
    by (auto simp: randomUUID_def)
  ultimately show ?thesis
    by (simp add: card_uuid_v4_bytes_image)
qed

text \<open>
  Claim C9 says that the identifier is drawn from a space of at least \<open>2^128\<close> values.
  The identifier is a version-4 UUID: of its 128 bits, the four version bits and the two
  variant bits are fixed, so different random draws can print the same identifier, and
  the space has fewer than \<open>2^128\<close> values.
\<close>

theorem session_id_space_smaller_than_128_bits:
  "randomUUID [0, 0, 0, 0, 0, 0, 0x00, 0, 0, 0, 0, 0, 0, 0, 0, 0]
     = ''00000000-0000-4000-8000-000000000000''
   \<and> randomUUID [0, 0, 0, 0, 0, 0, 0x10, 0, 0, 0, 0, 0, 0, 0, 0, 0]
     = ''00000000-0000-4000-8000-000000000000''
   \<and> \<not> 2 ^ 128 \<le> card (randomUUID ` random_draws)"
proof (intro conjI)
  show "randomUUID [0, 0, 0, 0, 0, 0, 0x00, 0, 0, 0, 0, 0, 0, 0, 0, 0]
      = ''00000000-0000-4000-8000-000000000000''"
    by (simp add: randomUUID_def uuid_v4_bytes_def serializeUUID_def hex_bytes_def
        kHexBytes_def hex_digit_def version_byte_def variant_byte_def)
  show "randomUUID [0, 0, 0, 0, 0, 0, 0x10, 0, 0, 0, 0, 0, 0, 0, 0, 0]
      = ''00000000-0000-4000-8000-000000000000''"
    by (simp add: randomUUID_def uuid_v4_bytes_def serializeUUID_def hex_bytes_def
        kHexBytes_def hex_digit_def version_byte_def variant_byte_def)
  show "\<not> 2 ^ 128 \<le> card (randomUUID ` random_draws)"
    by (simp add: card_randomUUID_image)
qed

text \<open>
  Claim C9, amended. The identifiers \<open>createSession\<close> can return, one for every value of
  the sixteen random bytes, are exactly \<open>2^122\<close> different strings.
\<close>

theorem session_id_space_has_122_bits:
  "card (randomUUID ` random_draws) = 2 ^ 122"
  by (rule card_randomUUID_image)

section \<open>Path sandbox: containment after normalisation\<close>

subsection \<open>Splitting and joining\<close>

lemma split_slash_not_Nil: "split_slash p \<noteq> []"
  by (induction p) (auto split: list.splits)

lemma split_slash_no_slash: "seg \<in> set (split_slash p) \<Longrightarrow> CHR ''/'' \<notin> set seg"
proof (induction p arbitrary: seg)
  case Nil
  then show ?case by simp
next
  case (Cons c cs)
  obtain s ss where ss: "split_slash cs = s # ss"
    using split_slash_not_Nil [of cs] by (cases "split_slash cs") auto
  show ?case
  proof (cases "c = CHR ''/''")
    case True
    with Cons show ?thesis by auto
  next
    case False
    with Cons.prems ss have "seg = c # s \<or> seg \<in> set ss" by simp
    with Cons.IH ss False show ?thesis by auto
  qed
qed

lemma split_slash_append:
  "split_slash (a @ CHR ''/'' # b) = split_slash a @ split_slash b"
proof (induction a)
  case Nil
  then show ?case by simp
next
  case (Cons c a)
  obtain s ss where "split_slash a = s # ss"
    using split_slash_not_Nil [of a] by (cases "split_slash a") auto
  with Cons show ?case by simp
qed

lemma split_slash_single: "CHR ''/'' \<notin> set s \<Longrightarrow> split_slash s = [s]"
  by (induction s) auto

lemma split_slash_join:
  assumes "list_all proper_segment segs" and "segs \<noteq> []"
  shows "split_slash (join_slash segs) = segs"
  using assms
proof (induction segs rule: join_slash.induct)
  case 1
  then show ?case by simp
next
  case (2 seg)
  then show ?case by (simp add: proper_segment_def split_slash_single)
next
  case (3 seg seg' segs)
  then have "split_slash (join_slash (seg' # segs)) = seg' # segs" by simp
  moreover from 3 have "split_slash seg = [seg]"
    by (simp add: proper_segment_def split_slash_single)
  ultimately show ?case by (simp add: split_slash_append)
qed

lemma path_segments_absolute_join:
  assumes "list_all proper_segment segs"
  shows "path_segments (''/'' @ join_slash segs) = segs"
proof (cases "segs = []")
  case True
  then show ?thesis by (simp add: path_segments_def)
next
  case False
  with assms have "split_slash (join_slash segs) = segs" by (rule split_slash_join)
  moreover from assms have "filter (\<lambda>seg. seg \<noteq> []) segs = segs"
    by (simp add: list_all_iff proper_segment_def filter_id_conv)
  ultimately show ?thesis by (simp add: path_segments_def)
qed

lemma path_segments_append:
  "path_segments (a @ CHR ''/'' # b) = path_segments a @ path_segments b"
  by (simp add: path_segments_def split_slash_append)

lemma path_segments_slashes:
  "\<forall>c\<in>set t. c = CHR ''/'' \<Longrightarrow> path_segments t = []"
  by (induction t) (auto simp: path_segments_def)

lemma path_segments_trailing_slashes:
  "\<forall>c\<in>set t. c = CHR ''/'' \<Longrightarrow> path_segments (a @ t) = path_segments a"
proof (cases t)
  case Nil
  then show ?thesis by simp
next
  case (Cons c t')
  assume all: "\<forall>c\<in>set t. c = CHR ''/''"
  with Cons have "c = CHR ''/''" and "\<forall>c\<in>set t'. c = CHR ''/''" by auto
  with Cons show ?thesis
    by (simp add: path_segments_append path_segments_slashes)
qed

lemma strip_trailing_slashes_decompose:
  "\<exists>t. (\<forall>c\<in>set t. c = CHR ''/'') \<and> s = strip_trailing_slashes s @ t"
proof -
  let ?t = "rev (takeWhile (\<lambda>c. c = CHR ''/'') (rev s))"
  have "s = rev (takeWhile (\<lambda>c. c = CHR ''/'') (rev s)
      @ dropWhile (\<lambda>c. c = CHR ''/'') (rev s))"
    by (simp only: takeWhile_dropWhile_id rev_rev_ident)
  also have "\<dots> = strip_trailing_slashes s @ ?t"
    by (simp only: rev_append strip_trailing_slashes_def)
  finally have "s = strip_trailing_slashes s @ ?t" .
  moreover have "\<forall>c\<in>set ?t. c = CHR ''/''"
    by (auto dest: set_takeWhileD)
  ultimately show ?thesis by blast
qed

lemma path_segments_strip: "path_segments (strip_trailing_slashes s) = path_segments s"
proof -
  obtain t where "\<forall>c\<in>set t. c = CHR ''/''" and "s = strip_trailing_slashes s @ t"
    using strip_trailing_slashes_decompose by blast
  then show ?thesis
    using path_segments_trailing_slashes [of t "strip_trailing_slashes s"] by simp
qed

lemma within_root_equal_or_below:
  assumes "within_root resolved root"
  shows "equal_or_below resolved root"
proof -
  let ?nr = "strip_trailing_slashes root"
  from assms consider "resolved = ?nr" | rest where "resolved = ?nr @ CHR ''/'' # rest"
    by (auto simp: within_root_def Let_def prefix_def)
  then show ?thesis
  proof cases
    case 1
    then show ?thesis by (simp add: equal_or_below_def path_segments_strip)
  next
    case 2
    then have "path_segments resolved = path_segments root @ path_segments rest"
      by (simp add: path_segments_append path_segments_strip)
    then show ?thesis by (simp add: equal_or_below_def)
  qed
qed

subsection \<open>Normalisation\<close>

lemma normalize_segments_proper:
  assumes "list_all proper_segment res" and "\<forall>seg\<in>set segs. CHR ''/'' \<notin> set seg"
  shows "list_all proper_segment (normalize_segments False res segs)"
  using assms
proof (induction segs arbitrary: res)
  case Nil
  then show ?case by simp
next
  case (Cons seg segs)
  then have rest: "\<forall>seg\<in>set segs. CHR ''/'' \<notin> set seg" by simp
  consider "seg = []" | "seg = ''.''" | "seg = ''..''"
    | "seg \<noteq> []" "seg \<noteq> ''.''" "seg \<noteq> ''..''" by blast
  then show ?case
  proof cases
    case 1
    with Cons.IH [OF Cons.prems(1) rest] show ?thesis by simp
  next
    case 2
    with Cons.IH [OF Cons.prems(1) rest] show ?thesis by simp
  next
    case 3
    show ?thesis
    proof (cases res)
      case Nil
      with 3 Cons.IH [OF _ rest, of "[]"] show ?thesis by simp
    next
      case (Cons kept below)
      with Cons.prems(1) have "proper_segment kept" and "list_all proper_segment below"
        by simp_all
      then have "kept \<noteq> ''..''" and "list_all proper_segment below"
        by (simp_all add: proper_segment_def)
      with 3 Cons Cons.IH [OF _ rest, of below] show ?thesis by simp
    qed
  next
    case 4
    with Cons.prems(2) have "proper_segment seg"
      by (simp add: proper_segment_def)
    with Cons.prems(1) have "list_all proper_segment (seg # res)"
      by simp
    from Cons.IH [OF this rest] 4 show ?thesis by simp
  qed
qed

lemma normalizeString_proper:
  obtains segs where "list_all proper_segment segs"
    and "normalizeString path False = join_slash segs"
proof -
  have "list_all proper_segment (normalize_segments False [] (split_slash path))"
    by (rule normalize_segments_proper) (simp_all add: split_slash_no_slash)
  then show thesis
    using that by (simp add: normalizeString_def)
qed

lemma resolve_loop_absolute:
  assumes "prefix ''/'' cwd"
  shows "snd (resolve_loop (paths @ [cwd]) resolvedPath)"
  using assms
  by (induction paths arbitrary: resolvedPath) (auto simp: prefix_def)

lemma posix_resolve_proper:
  assumes "prefix ''/'' cwd"
  obtains segs where "list_all proper_segment segs"
    and "posix_resolve cwd args = ''/'' @ join_slash segs"
proof -
  obtain resolvedPath resolvedAbsolute
    where loop: "resolve_loop (rev args @ [cwd]) [] = (resolvedPath, resolvedAbsolute)"
    by (cases "resolve_loop (rev args @ [cwd]) []")
  with resolve_loop_absolute [OF assms, of "rev args" "[]"] have "resolvedAbsolute" by simp
  with loop have "posix_resolve cwd args = ''/'' @ normalizeString resolvedPath False"
    by (simp add: posix_resolve_def)
  then show thesis
    using that normalizeString_proper [of resolvedPath] by metis
qed

lemma posix_normalize_proper:
  assumes "path \<noteq> []" and "hd path = CHR ''/''"
  obtains segs where "list_all proper_segment segs"
    and "posix_normalize path = ''/'' @ join_slash segs
         \<or> segs \<noteq> [] \<and> posix_normalize path = ''/'' @ join_slash segs @ ''/''"
proof -
  obtain segs where segs: "list_all proper_segment segs"
    and norm: "normalizeString path False = join_slash segs"
    by (rule normalizeString_proper)
  show thesis
  proof (cases "join_slash segs = []")
    case True
    with assms norm have "posix_normalize path = ''/'' @ join_slash []"
      by (simp add: posix_normalize_def Let_def)
    then show ?thesis using that [of "[]"] by simp
  next
    case False
    then have "segs \<noteq> []" by auto
    with assms norm False
    have "posix_normalize path = ''/'' @ join_slash segs
        \<or> segs \<noteq> [] \<and> posix_normalize path = ''/'' @ join_slash segs @ ''/''"
      by (simp add: posix_normalize_def Let_def)
    with segs that show ?thesis by blast
  qed
qed

subsection \<open>Stripping the trailing slashes of a normalised path\<close>

lemma join_slash_last:
  assumes "list_all proper_segment segs" and "segs \<noteq> []"
  shows "join_slash segs \<noteq> [] \<and> last (join_slash segs) \<noteq> CHR ''/''"
  using assms
proof (induction segs rule: join_slash.induct)
  case 1
  then show ?case by simp
next
  case (2 seg)
  then have "seg \<noteq> []" and "CHR ''/'' \<notin> set seg"
    by (simp_all add: proper_segment_def)
  moreover from \<open>seg \<noteq> []\<close> have "last seg \<in> set seg" by (rule last_in_set)
  ultimately have "last seg \<noteq> CHR ''/''" by metis
  with \<open>seg \<noteq> []\<close> show ?case by simp
next
  case (3 seg seg' segs)
  then show ?case by simp
qed

lemma strip_trailing_slashes_id:
  "s \<noteq> [] \<Longrightarrow> last s \<noteq> CHR ''/'' \<Longrightarrow> strip_trailing_slashes s = s"
  by (cases s rule: rev_cases) (simp_all add: strip_trailing_slashes_def)

lemma strip_trailing_slashes_snoc:
  "strip_trailing_slashes (s @ ''/'') = strip_trailing_slashes s"
  by (simp add: strip_trailing_slashes_def)

lemma strip_normalised:
  assumes "list_all proper_segment segs"
  shows "strip_or_root (''/'' @ join_slash segs) = ''/'' @ join_slash segs"
proof (cases "segs = []")
  case True
  then show ?thesis by (simp add: strip_or_root_def strip_trailing_slashes_def)
next
  case False
  with assms have "join_slash segs \<noteq> [] \<and> last (join_slash segs) \<noteq> CHR ''/''"
    by (rule join_slash_last)
  then have "strip_trailing_slashes (''/'' @ join_slash segs) = ''/'' @ join_slash segs"
    by (intro strip_trailing_slashes_id) simp_all
  then show ?thesis by (simp add: strip_or_root_def)
qed

lemma strip_or_root_snoc: "strip_or_root (s @ ''/'') = strip_or_root s"
  by (simp add: strip_or_root_def strip_trailing_slashes_snoc)


lemma absolute_normal_form_join:
  assumes "list_all proper_segment segs"
  shows "absolute_normal_form (''/'' @ join_slash segs)"
  using assms path_segments_absolute_join [OF assms]
  by (simp add: absolute_normal_form_def list_all_iff proper_segment_def)

subsection \<open>The sandbox\<close>

lemma resolve_user_path_proper:
  assumes "prefix ''/'' cwd" and "userPath \<noteq> []"
    and "resolve_user_path allowedRoots cwd userPath basePath = Inr resolved0"
  obtains segs where "list_all proper_segment segs"
    and "resolved0 = ''/'' @ join_slash segs
         \<or> segs \<noteq> [] \<and> resolved0 = ''/'' @ join_slash segs @ ''/''"
proof -
  from assms(3) consider
      base where "resolved0 = posix_resolve cwd [base, userPath]"
    | "hd userPath = CHR ''/''" "resolved0 = posix_normalize userPath"
    by (auto simp: resolve_user_path_def split: option.splits if_splits list.splits)
  then show thesis
  proof cases
    case 1
    obtain segs where "list_all proper_segment segs"
      and "posix_resolve cwd [base, userPath] = ''/'' @ join_slash segs"
      using assms(1) by (rule posix_resolve_proper)
    with 1 that show ?thesis by simp
  next
    case 2
    obtain segs where "list_all proper_segment segs"
      and "posix_normalize userPath = ''/'' @ join_slash segs
         \<or> segs \<noteq> [] \<and> posix_normalize userPath = ''/'' @ join_slash segs @ ''/''"
      using assms(2) 2(1) by (rule posix_normalize_proper)
    with 2 that show ?thesis by simp
  qed
qed

lemma sandboxPath_Inr:
  assumes "sandboxPath allowedRoots cwd userPath basePath = Inr resolved"
  obtains resolved0 where "userPath \<noteq> []"
    and "resolve_user_path allowedRoots cwd userPath basePath = Inr resolved0"
    and "resolved = strip_or_root resolved0"
    and "list_ex (within_root resolved) allowedRoots"
proof -
  from assms have ne: "userPath \<noteq> []" and nul: "CHR 0x00 \<notin> set userPath"
    by (auto simp: sandboxPath_def split: if_splits)
  show thesis
  proof (cases "resolve_user_path allowedRoots cwd userPath basePath")
    case (Inl e)
    with assms ne nul show ?thesis by (simp add: sandboxPath_def)
  next
    case (Inr resolved0)
    with assms ne nul have "resolved = strip_or_root resolved0"
      and "list_ex (within_root resolved) allowedRoots"
      by (auto simp: sandboxPath_def Let_def split: if_splits)
    with ne Inr that show ?thesis by blast
  qed
qed

text \<open>
  Claim C2. With an absolute working directory, whatever \<open>sandboxPath\<close> returns is an
  absolute path in normal form (no \<open>.\<close>, no \<open>..\<close>, no empty name, no trailing slash) that
  passes the containment test of the source for one of the allowed roots, and its names
  begin with the names of that root: it is that root or lies below it. Every other call
  throws; in particular the empty path and a path with a null byte are rejected.
\<close>

theorem sandboxPath_stays_within_roots:
  assumes "prefix ''/'' cwd"
  shows "(\<forall>resolved. sandboxPath allowedRoots cwd userPath basePath = Inr resolved \<longrightarrow>
            absolute_normal_form resolved
            \<and> (\<exists>root\<in>set allowedRoots. within_root resolved root \<and> equal_or_below resolved root))
         \<and> sandboxPath allowedRoots cwd [] basePath = Inl PathEmpty
         \<and> (CHR 0x00 \<in> set userPath \<longrightarrow>
              sandboxPath allowedRoots cwd userPath basePath = Inl NullByte)"
proof (intro conjI allI impI)
  fix resolved
  assume "sandboxPath allowedRoots cwd userPath basePath = Inr resolved"
  then obtain resolved0 where ne: "userPath \<noteq> []"
    and origin: "resolve_user_path allowedRoots cwd userPath basePath = Inr resolved0"
    and stripped: "resolved = strip_or_root resolved0"
    and allowed: "list_ex (within_root resolved) allowedRoots"
    by (rule sandboxPath_Inr)
  from assms ne origin obtain segs where segs: "list_all proper_segment segs"
    and shape: "resolved0 = ''/'' @ join_slash segs
         \<or> segs \<noteq> [] \<and> resolved0 = ''/'' @ join_slash segs @ ''/''"
    by (rule resolve_user_path_proper)
  have "strip_or_root resolved0 = strip_or_root (''/'' @ join_slash segs)"
    using shape strip_or_root_snoc [of "''/'' @ join_slash segs"] by auto
  with stripped have "resolved = ''/'' @ join_slash segs"
    using strip_normalised [OF segs] by simp
  with absolute_normal_form_join [OF segs] show "absolute_normal_form resolved"
    by simp
  from allowed obtain root where "root \<in> set allowedRoots" and "within_root resolved root"
    by (auto simp: list_ex_iff)
  then show "\<exists>root\<in>set allowedRoots. within_root resolved root \<and> equal_or_below resolved root"
    using within_root_equal_or_below by blast
next
  show "sandboxPath allowedRoots cwd [] basePath = Inl PathEmpty"
    by (simp add: sandboxPath_def)
next
  assume "CHR 0x00 \<in> set userPath"
  then show "sandboxPath allowedRoots cwd userPath basePath = Inl NullByte"
    by (auto simp: sandboxPath_def)
qed

theorem sandboxPath_stays_within_roots_witness:
  "prefix ''/'' ''/app''
   \<and> sandboxPath [''/srv/samba/''] ''/app'' ''docs/../public/./report.txt'' None
       = Inr ''/srv/samba/public/report.txt''
   \<and> absolute_normal_form ''/srv/samba/public/report.txt''
   \<and> within_root ''/srv/samba/public/report.txt'' ''/srv/samba/''
   \<and> equal_or_below ''/srv/samba/public/report.txt'' ''/srv/samba/''
   \<and> sandboxPath [''/srv/samba/''] ''/app'' ''../../etc/passwd'' None
       = Inl (AccessDenied ''/etc/passwd'')
   \<and> sandboxPath [''/srv/samba/''] ''/app'' [] None = Inl PathEmpty
   \<and> sandboxPath [''/srv/samba/''] ''/app'' [CHR ''a'', CHR 0x00] None = Inl NullByte"
proof -
  have run: "sandboxPath [''/srv/samba/''] ''/app'' ''docs/../public/./report.txt'' None
       = Inr ''/srv/samba/public/report.txt''"
    by (simp add: sandboxPath_def resolve_user_path_def strip_or_root_def posix_resolve_def
        normalizeString_def strip_trailing_slashes_def within_root_def)
  have denied: "sandboxPath [''/srv/samba/''] ''/app'' ''../../etc/passwd'' None
       = Inl (AccessDenied ''/etc/passwd'')"
    by (simp add: sandboxPath_def resolve_user_path_def strip_or_root_def posix_resolve_def
        normalizeString_def strip_trailing_slashes_def within_root_def)
  from sandboxPath_stays_within_roots
         [of "''/app''" "[''/srv/samba/'']" "''docs/../public/./report.txt''" None] run
  have "absolute_normal_form ''/srv/samba/public/report.txt''
      \<and> within_root ''/srv/samba/public/report.txt'' ''/srv/samba/''
      \<and> equal_or_below ''/srv/samba/public/report.txt'' ''/srv/samba/''"
    by simp
  moreover from sandboxPath_stays_within_roots
         [of "''/app''" "[''/srv/samba/'']" "[CHR ''a'', CHR 0x00]" None]
  have "sandboxPath [''/srv/samba/''] ''/app'' [] None = Inl PathEmpty
      \<and> sandboxPath [''/srv/samba/''] ''/app'' [CHR ''a'', CHR 0x00] None = Inl NullByte"
    by simp
  ultimately show ?thesis using run denied by simp
qed

end
